theory Spec2Isabelle
  imports Main
begin

section \<open>Data model (structures.h, utils.c)\<close>

text \<open>
  A shallow embedding of the DPLL solver of the repository: \<^verbatim>\<open>structures.c\<close>,
  \<^verbatim>\<open>solver.c\<close>, the clause-line reader of \<^verbatim>\<open>parser.c\<close>, the helpers of \<^verbatim>\<open>utils.c\<close> they
  call and the model printer of \<^verbatim>\<open>main.c\<close>.

  \<^item> \<^verbatim>\<open>literal_t\<close> and \<^verbatim>\<open>variable_t\<close> are \<^verbatim>\<open>int32_t\<close>. They are modelled as \<open>int\<close>: the
    only arithmetic on them is the negation of a negative literal. It overflows at
    \<^verbatim>\<open>INT32_MIN\<close> only: \<^verbatim>\<open>is_valid_literal\<close>, which the reader calls on every integer it
    reads, gives \<open>None\<close> there (the behaviour of the C program is undefined), and the
    solver works on literals that passed it (\<open>1 \<le> |l| \<le> N \<le> INT32_MAX\<close>).
  \<^item> \<^verbatim>\<open>size_t\<close> and \<^verbatim>\<open>uint64_t\<close> counters are \<open>nat\<close>.
  \<^item> A clause is the list of its literals (\<^verbatim>\<open>literals[0 .. size-1]\<close>); the cache
    fields of \<^verbatim>\<open>clause_t\<close> are written by \<^verbatim>\<open>cnf_update_caches\<close> only, which the
    solver never calls, and are left out, as are \<^verbatim>\<open>variable_used\<close> and the occurrence
    lists of the formula, which the solver never reads.
  \<^item> The array \<^verbatim>\<open>assignment[0 .. N]\<close> is a function from the index to the value. The C
    program reads the array at the variable of every literal it examines; on a formula
    whose literals are in range (\<open>literals_in_range\<close> below) every index is within \<open>0 .. N\<close>.
  \<^item> The stack array \<^verbatim>\<open>stack[0 .. size-1]\<close> is a list, bottom first; \<^verbatim>\<open>capacity\<close> and
    the \<^verbatim>\<open>realloc\<close> that grows it are taken to succeed.
  \<^item> Objects are values, so the guards against \<^verbatim>\<open>NULL\<close> pointers have no counterpart; a
    function that changes the solver returns the new solver beside its result.
\<close>

datatype var_assignment = VAR_UNASSIGNED | VAR_TRUE | VAR_FALSE

type_synonym literal = int

type_synonym clause = "int list"

type_synonym assignment_array = "int \<Rightarrow> var_assignment"

record cnf_formula =
  clauses :: "clause list"
  num_variables :: int
  assignment :: assignment_array

record assignment_entry =
  variable :: int
  entry_value :: var_assignment
  entry_level :: nat
  is_decision :: bool

record assignment_stack =
  stack :: "assignment_entry list"
  decision_level :: nat

definition literal_variable :: "literal \<Rightarrow> int" where
  "literal_variable lit = (if lit > 0 then lit else - lit)"

definition literal_is_positive :: "literal \<Rightarrow> bool" where
  "literal_is_positive lit = (lit > 0)"

text \<open>
  \<^verbatim>\<open>is_valid_variable\<close> and \<^verbatim>\<open>is_valid_literal\<close> of \<^verbatim>\<open>utils.c\<close>: the test the reader makes
  on every literal before it enters a clause. \<^verbatim>\<open>is_valid_literal\<close> computes
  \<^verbatim>\<open>lit > 0 ? lit : -lit\<close> in a 32-bit \<^verbatim>\<open>int\<close>: for \<^verbatim>\<open>INT32_MIN\<close> the negation overflows, the
  behaviour of the C program is undefined, and the result of the model is \<open>None\<close>.
\<close>

definition INT32_MIN :: int where "INT32_MIN = - 2147483648"

definition INT32_MAX :: int where "INT32_MAX = 2147483647"

definition is_valid_variable :: "int \<Rightarrow> int \<Rightarrow> bool" where
  "is_valid_variable var max_variables = (var \<ge> 1 \<and> var \<le> max_variables)"

definition is_valid_literal :: "int \<Rightarrow> int \<Rightarrow> bool option" where
  "is_valid_literal lit max_variables =
     (if lit = 0 then Some False
      else if lit = INT32_MIN then None
      else let var = (if lit > 0 then lit else - lit)
           in Some (is_valid_variable var max_variables))"

section \<open>Clause evaluation (structures.c)\<close>

text \<open>The test both \<^verbatim>\<open>clause_is_satisfied\<close> and \<^verbatim>\<open>clause_is_unit\<close> make on a literal.\<close>

definition literal_satisfied :: "assignment_array \<Rightarrow> literal \<Rightarrow> bool" where
  "literal_satisfied a lit =
     (let var = literal_variable lit;
          is_positive = literal_is_positive lit;
          var_value = a var
      in (is_positive \<and> var_value = VAR_TRUE) \<or> (\<not> is_positive \<and> var_value = VAR_FALSE))"

fun clause_is_satisfied :: "clause \<Rightarrow> assignment_array \<Rightarrow> bool" where
  "clause_is_satisfied [] a = False"
| "clause_is_satisfied (lit # rest) a =
     (if literal_satisfied a lit then True else clause_is_satisfied rest a)"

text \<open>
  \<^verbatim>\<open>clause_is_unit\<close>: the loop carries \<^verbatim>\<open>unassigned_literal\<close> and \<^verbatim>\<open>unassigned_count\<close>.
  The result \<open>Some l\<close> is the return value true with \<^verbatim>\<open>*unit_literal = l\<close>; \<open>None\<close> is
  the return value false.
\<close>

fun clause_is_unit_loop :: "clause \<Rightarrow> assignment_array \<Rightarrow> literal \<Rightarrow> nat \<Rightarrow> literal option" where
  "clause_is_unit_loop [] a unassigned_literal unassigned_count =
     (if unassigned_count = 1 then Some unassigned_literal else None)"
| "clause_is_unit_loop (lit # rest) a unassigned_literal unassigned_count =
     (if literal_satisfied a lit then None
      else if a (literal_variable lit) = VAR_UNASSIGNED then
        (if unassigned_count + 1 > 1 then None
         else clause_is_unit_loop rest a lit (unassigned_count + 1))
      else clause_is_unit_loop rest a unassigned_literal unassigned_count)"

definition clause_is_unit :: "clause \<Rightarrow> assignment_array \<Rightarrow> literal option" where
  "clause_is_unit c a = clause_is_unit_loop c a 0 0"

fun clause_is_conflicting :: "clause \<Rightarrow> assignment_array \<Rightarrow> bool" where
  "clause_is_conflicting [] a = True"
| "clause_is_conflicting (lit # rest) a =
     (if a (literal_variable lit) = VAR_UNASSIGNED \<or> literal_satisfied a lit then False
      else clause_is_conflicting rest a)"

fun cnf_is_satisfied_loop :: "clause list \<Rightarrow> assignment_array \<Rightarrow> bool" where
  "cnf_is_satisfied_loop [] a = True"
| "cnf_is_satisfied_loop (c # cs) a =
     (if \<not> clause_is_satisfied c a then False else cnf_is_satisfied_loop cs a)"

definition cnf_is_satisfied :: "cnf_formula \<Rightarrow> bool" where
  "cnf_is_satisfied cnf = cnf_is_satisfied_loop (clauses cnf) (assignment cnf)"

fun cnf_has_conflict_loop :: "clause list \<Rightarrow> assignment_array \<Rightarrow> bool" where
  "cnf_has_conflict_loop [] a = False"
| "cnf_has_conflict_loop (c # cs) a =
     (if clause_is_conflicting c a then True else cnf_has_conflict_loop cs a)"

definition cnf_has_conflict :: "cnf_formula \<Rightarrow> bool" where
  "cnf_has_conflict cnf = cnf_has_conflict_loop (clauses cnf) (assignment cnf)"

text \<open>
  \<^verbatim>\<open>cnf_create\<close> (\<open>None\<close> is the \<^verbatim>\<open>NULL\<close> it returns for \<open>num_variables \<le> 0\<close>; \<^verbatim>\<open>calloc\<close>
  leaves every variable \<^verbatim>\<open>VAR_UNASSIGNED = 0\<close>) and \<^verbatim>\<open>cnf_add_clause\<close>, which appends.
\<close>

definition cnf_create :: "int \<Rightarrow> cnf_formula option" where
  "cnf_create n =
     (if n \<le> 0 then None
      else Some \<lparr>clauses = [], num_variables = n, assignment = (\<lambda>_. VAR_UNASSIGNED)\<rparr>)"

definition cnf_add_clause :: "cnf_formula \<Rightarrow> clause \<Rightarrow> cnf_formula" where
  "cnf_add_clause cnf c = cnf\<lparr>clauses := clauses cnf @ [c]\<rparr>"

text \<open>
  \<^verbatim>\<open>clause_add_literal\<close> (\<open>None\<close> is the return value false, for the literal 0; a literal
  already in the clause is not added again) and \<^verbatim>\<open>clause_is_tautology\<close> of
  \<^verbatim>\<open>structures.c\<close>.
\<close>

definition clause_add_literal :: "clause \<Rightarrow> literal \<Rightarrow> clause option" where
  "clause_add_literal c lit =
     (if lit = 0 then None
      else if lit \<in> set c then Some c
      else Some (c @ [lit]))"

fun tautology_inner :: "int \<Rightarrow> bool \<Rightarrow> clause \<Rightarrow> bool" where
  "tautology_inner vi pi [] = False"
| "tautology_inner vi pi (lj # rest) =
     (if vi = literal_variable lj \<and> pi \<noteq> literal_is_positive lj then True
      else tautology_inner vi pi rest)"

fun clause_is_tautology :: "clause \<Rightarrow> bool" where
  "clause_is_tautology [] = False"
| "clause_is_tautology (li # rest) =
     (if tautology_inner (literal_variable li) (literal_is_positive li) rest then True
      else clause_is_tautology rest)"

section \<open>The assignment stack (structures.c)\<close>

definition assignment_stack_create :: assignment_stack where
  "assignment_stack_create = \<lparr>stack = [], decision_level = 0\<rparr>"

text \<open>
  \<^verbatim>\<open>assignment_stack_push\<close>: a decision bumps the level first, and the new entry records
  the level after the bump.
\<close>

definition assignment_stack_push ::
  "assignment_stack \<Rightarrow> int \<Rightarrow> var_assignment \<Rightarrow> bool \<Rightarrow> assignment_stack" where
  "assignment_stack_push st var val is_dec =
     (let lvl = (if is_dec then decision_level st + 1 else decision_level st)
      in \<lparr>stack = stack st @
             [\<lparr>variable = var, entry_value = val, entry_level = lvl, is_decision = is_dec\<rparr>],
          decision_level = lvl\<rparr>)"

text \<open>
  \<^verbatim>\<open>assignment_stack_pop\<close>: \<open>None\<close> is the return value false (empty stack); otherwise
  the popped entry and the stack left.
\<close>

definition assignment_stack_pop ::
  "assignment_stack \<Rightarrow> (assignment_entry \<times> assignment_stack) option" where
  "assignment_stack_pop st =
     (if length (stack st) = 0 then None
      else let top = last (stack st)
           in Some (top,
                \<lparr>stack = butlast (stack st),
                 decision_level =
                   (if is_decision top \<and> decision_level st > 0 then decision_level st - 1
                    else decision_level st)\<rparr>))"

function assignment_stack_backtrack_loop :: "assignment_stack \<Rightarrow> nat \<Rightarrow> assignment_stack" where
  "assignment_stack_backtrack_loop st lvl =
     (if length (stack st) > 0 \<and> entry_level (last (stack st)) > lvl then
        (case assignment_stack_pop st of
           Some (entry, st') \<Rightarrow> assignment_stack_backtrack_loop st' lvl
         | None \<Rightarrow> st)
      else st)"
  by pat_completeness auto
termination
  by (relation "measure (\<lambda>(st, lvl). length (stack st))")
     (auto simp: assignment_stack_pop_def Let_def split: if_splits)

definition assignment_stack_backtrack_to_level :: "assignment_stack \<Rightarrow> nat \<Rightarrow> assignment_stack" where
  "assignment_stack_backtrack_to_level st lvl =
     (assignment_stack_backtrack_loop st lvl)\<lparr>decision_level := lvl\<rparr>"

definition assignment_stack_clear :: "assignment_stack \<Rightarrow> assignment_stack" where
  "assignment_stack_clear st = st\<lparr>stack := [], decision_level := 0\<rparr>"

section \<open>The solver state (solver.h)\<close>

datatype solver_result =
  SOLVER_SATISFIABLE | SOLVER_UNSATISFIABLE | SOLVER_UNKNOWN
  | SOLVER_TIMEOUT | SOLVER_MEMORY_ERROR | SOLVER_ERROR

datatype decision_strategy =
  DECISION_FIRST_UNASSIGNED | DECISION_MOST_FREQUENT | DECISION_JEROSLOW_WANG | DECISION_RANDOM

text \<open>
  \<^verbatim>\<open>solver_config_t\<close> without \<^verbatim>\<open>timeout_seconds\<close> (a double compared with the processor
  clock, see \<open>solver_is_timeout_at\<close> below) and without \<^verbatim>\<open>verbose\<close> (logging only).
\<close>

record solver_config =
  decision_strategy :: decision_strategy
  enable_pure_literal :: bool
  enable_unit_propagation :: bool
  enable_preprocessing :: bool
  enable_restarts :: bool
  max_decisions :: nat
  restart_threshold :: nat

record solver_stats =
  decisions :: nat
  propagations :: nat
  conflicts :: nat
  restarts :: nat

record dpll_solver =
  formula :: cnf_formula
  assignments :: assignment_stack
  stats :: solver_stats
  config :: solver_config
  pure_literals :: "int \<Rightarrow> bool"
  formula_modified :: bool
  conflicts_since_restart :: nat

definition DEFAULT_SOLVER_CONFIG :: solver_config where
  "DEFAULT_SOLVER_CONFIG =
     \<lparr>decision_strategy = DECISION_JEROSLOW_WANG, enable_pure_literal = True,
      enable_unit_propagation = True, enable_preprocessing = True, enable_restarts = False,
      max_decisions = 0, restart_threshold = 1000\<rparr>"

definition solver_create_with_config :: "cnf_formula \<Rightarrow> solver_config \<Rightarrow> dpll_solver" where
  "solver_create_with_config f cfg =
     \<lparr>formula = f, assignments = assignment_stack_create,
      stats = \<lparr>decisions = 0, propagations = 0, conflicts = 0, restarts = 0\<rparr>,
      config = cfg, pure_literals = (\<lambda>_. False), formula_modified = False,
      conflicts_since_restart = 0\<rparr>"

definition solver_create :: "cnf_formula \<Rightarrow> dpll_solver" where
  "solver_create f = solver_create_with_config f DEFAULT_SOLVER_CONFIG"

definition IS_VARIABLE_ASSIGNED :: "dpll_solver \<Rightarrow> int \<Rightarrow> bool" where
  "IS_VARIABLE_ASSIGNED solver var = (assignment (formula solver) var \<noteq> VAR_UNASSIGNED)"

text \<open>
  \<^verbatim>\<open>assign_variable\<close> returns false, leaving the state as it is, for variable 0 and for a
  variable above \<^verbatim>\<open>num_variables\<close>; otherwise it writes the array and pushes the entry.
\<close>

definition assign_variable ::
  "dpll_solver \<Rightarrow> int \<Rightarrow> var_assignment \<Rightarrow> bool \<Rightarrow> bool \<times> dpll_solver" where
  "assign_variable solver var val is_dec =
     (if var = 0 \<or> var > num_variables (formula solver) then (False, solver)
      else (True,
            solver\<lparr>formula := (formula solver)\<lparr>assignment := (assignment (formula solver))(var := val)\<rparr>,
                   assignments := assignment_stack_push (assignments solver) var val is_dec\<rparr>))"

fun has_conflict_loop :: "clause list \<Rightarrow> assignment_array \<Rightarrow> bool" where
  "has_conflict_loop [] a = False"
| "has_conflict_loop (c # cs) a =
     (if clause_is_conflicting c a then True else has_conflict_loop cs a)"

definition has_conflict :: "dpll_solver \<Rightarrow> bool" where
  "has_conflict solver =
     has_conflict_loop (clauses (formula solver)) (assignment (formula solver))"

definition is_formula_satisfied :: "dpll_solver \<Rightarrow> bool" where
  "is_formula_satisfied solver = cnf_is_satisfied (formula solver)"

section \<open>Unit propagation (solver.c)\<close>

text \<open>
  One pass of the \<^verbatim>\<open>for\<close> loop of \<^verbatim>\<open>unit_propagation\<close> over the clauses still to
  examine. The result is \<open>(Some r, s, p)\<close> when the pass left the function with
  \<^verbatim>\<open>return r\<close>, and \<open>(None, s, p)\<close> when it ran to the end; \<open>p\<close> is \<^verbatim>\<open>propagated\<close>.
\<close>

fun unit_propagation_pass ::
  "clause list \<Rightarrow> dpll_solver \<Rightarrow> bool \<Rightarrow> solver_result option \<times> dpll_solver \<times> bool" where
  "unit_propagation_pass [] solver propagated = (None, solver, propagated)"
| "unit_propagation_pass (c # cs) solver propagated =
     (if clause_is_satisfied c (assignment (formula solver)) then
        unit_propagation_pass cs solver propagated
      else
        (case clause_is_unit c (assignment (formula solver)) of
           None \<Rightarrow> unit_propagation_pass cs solver propagated
         | Some unit_literal \<Rightarrow>
             (let var = literal_variable unit_literal;
                  val = (if literal_is_positive unit_literal then VAR_TRUE else VAR_FALSE)
              in if IS_VARIABLE_ASSIGNED solver var then
                   (if assignment (formula solver) var \<noteq> val then
                      (Some SOLVER_UNKNOWN,
                       solver\<lparr>conflicts_since_restart := conflicts_since_restart solver + 1,
                              stats := (stats solver)\<lparr>conflicts := conflicts (stats solver) + 1\<rparr>\<rparr>,
                       propagated)
                    else unit_propagation_pass cs solver propagated)
                 else
                   (case assign_variable solver var val False of
                      (False, solver') \<Rightarrow> (Some SOLVER_MEMORY_ERROR, solver', propagated)
                    | (True, solver') \<Rightarrow>
                        unit_propagation_pass cs
                          (solver'\<lparr>stats := (stats solver')\<lparr>propagations := propagations (stats solver') + 1\<rparr>,
                                   formula_modified := True\<rparr>)
                          True))))"

text \<open>
  The number of variables of \<open>1..N\<close> that are unassigned: what every successful
  \<^verbatim>\<open>assign_variable\<close> of an unassigned variable lowers by one.
\<close>

definition unassigned_count :: "dpll_solver \<Rightarrow> nat" where
  "unassigned_count solver =
     card {v \<in> {1 .. num_variables (formula solver)}. assignment (formula solver) v = VAR_UNASSIGNED}"

subsection \<open>Why the propagation loop ends\<close>

lemma clause_is_satisfied_iff:
  "clause_is_satisfied c a \<longleftrightarrow> (\<exists>l \<in> set c. literal_satisfied a l)"
  by (induction c) auto

lemma clause_is_unit_loop_Some:
  "clause_is_unit_loop c a ul n = Some l \<Longrightarrow>
     (\<forall>x \<in> set c. \<not> literal_satisfied a x) \<and>
     ((n = 1 \<and> l = ul \<and> (\<forall>x \<in> set c. a (literal_variable x) \<noteq> VAR_UNASSIGNED)) \<or>
      (n = 0 \<and> l \<in> set c \<and> a (literal_variable l) = VAR_UNASSIGNED))"
proof (induction c arbitrary: ul n)
  case Nil
  then show ?case by (simp split: if_splits)
next
  case (Cons x xs)
  show ?case
  proof (cases "a (literal_variable x) = VAR_UNASSIGNED")
    case True
    with Cons.prems have n0: "n = 0" and rec: "clause_is_unit_loop xs a x 1 = Some l"
      and ns: "\<not> literal_satisfied a x"
      by (auto split: if_splits)
    from Cons.IH[OF rec] True ns n0 show ?thesis by auto
  next
    case False
    with Cons.prems have rec: "clause_is_unit_loop xs a ul n = Some l"
      and ns: "\<not> literal_satisfied a x"
      by (auto split: if_splits)
    from Cons.IH[OF rec] False ns show ?thesis by auto
  qed
qed

lemma clause_is_unit_Some:
  assumes "clause_is_unit c a = Some l"
  shows "l \<in> set c" and "a (literal_variable l) = VAR_UNASSIGNED"
    and "\<not> clause_is_satisfied c a"
  using clause_is_unit_loop_Some[of c a 0 0 l] assms
  by (auto simp: clause_is_unit_def clause_is_satisfied_iff)

lemma unassigned_count_assign:
  assumes "assignment (formula s) var = VAR_UNASSIGNED" and "val \<noteq> VAR_UNASSIGNED"
    and "1 \<le> var" and "var \<le> num_variables (formula s)"
  shows "Suc (unassigned_count (s\<lparr>formula := (formula s)\<lparr>assignment := (assignment (formula s))(var := val)\<rparr>, assignments := st\<rparr>))
         = unassigned_count s"
proof -
  let ?U = "{v \<in> {1 .. num_variables (formula s)}. assignment (formula s) v = VAR_UNASSIGNED}"
  have fin: "finite ?U" by (rule finite_subset[of _ "{1 .. num_variables (formula s)}"]) auto
  have mem: "var \<in> ?U" using assms by simp
  have eq: "{v \<in> {1 .. num_variables (formula s)}. ((assignment (formula s))(var := val)) v = VAR_UNASSIGNED} = ?U - {var}"
    using assms(2) by auto
  have "card (?U - {var}) = card ?U - 1" using mem fin by (simp add: card_Diff_singleton)
  moreover have "card ?U > 0" using mem fin card_gt_0_iff by blast
  ultimately show ?thesis unfolding unassigned_count_def using eq by simp
qed

lemma assign_variable_measure:
  assumes "assign_variable s var val d = (True, s')"
    and "assignment (formula s) var = VAR_UNASSIGNED" and "val \<noteq> VAR_UNASSIGNED" and "0 \<le> var"
  shows "Suc (unassigned_count s') = unassigned_count s"
    and "length (stack (assignments s')) = Suc (length (stack (assignments s)))"
    and "num_variables (formula s') = num_variables (formula s)"
    and "clauses (formula s') = clauses (formula s)"
proof -
  from assms(1) have r: "1 \<le> var" "var \<le> num_variables (formula s)"
    and s': "s' = s\<lparr>formula := (formula s)\<lparr>assignment := (assignment (formula s))(var := val)\<rparr>,
                   assignments := assignment_stack_push (assignments s) var val d\<rparr>"
    using assms(4) by (auto simp: assign_variable_def split: if_splits)
  show "Suc (unassigned_count s') = unassigned_count s"
    unfolding s' using unassigned_count_assign[OF assms(2,3) r] by simp
  show "length (stack (assignments s')) = Suc (length (stack (assignments s)))"
    unfolding s' by (simp add: assignment_stack_push_def Let_def)
  show "num_variables (formula s') = num_variables (formula s)" unfolding s' by simp
  show "clauses (formula s') = clauses (formula s)" unfolding s' by simp
qed

lemma unassigned_count_cong:
  "formula s' = formula s \<Longrightarrow> unassigned_count s' = unassigned_count s"
  by (simp add: unassigned_count_def)

lemma literal_variable_nonneg: "0 \<le> literal_variable l"
  by (simp add: literal_variable_def)

lemma unit_propagation_pass_measure:
  "unit_propagation_pass cs s p = (r, s', p') \<Longrightarrow>
     num_variables (formula s') = num_variables (formula s) \<and>
     clauses (formula s') = clauses (formula s) \<and>
     length (stack (assignments s')) + unassigned_count s' =
       length (stack (assignments s)) + unassigned_count s \<and>
     length (stack (assignments s)) \<le> length (stack (assignments s')) \<and>
     (p' \<and> \<not> p \<longrightarrow> length (stack (assignments s)) < length (stack (assignments s'))) \<and>
     (p \<longrightarrow> p')"
proof (induction cs arbitrary: s p)
  case Nil
  then show ?case by simp
next
  case (Cons c cs)
  let ?a = "assignment (formula s)"
  show ?case
  proof (cases "clause_is_satisfied c ?a")
    case True
    with Cons.prems have "unit_propagation_pass cs s p = (r, s', p')" by simp
    from Cons.IH[OF this] show ?thesis .
  next
    case ns: False
    show ?thesis
    proof (cases "clause_is_unit c ?a")
      case None
      with ns Cons.prems have "unit_propagation_pass cs s p = (r, s', p')" by simp
      from Cons.IH[OF this] show ?thesis .
    next
      case (Some ul)
      define var where "var = literal_variable ul"
      define val where "val = (if literal_is_positive ul then VAR_TRUE else VAR_FALSE)"
      have un: "?a var = VAR_UNASSIGNED"
        using clause_is_unit_Some(2)[OF Some] by (simp add: var_def)
      hence na: "\<not> IS_VARIABLE_ASSIGNED s var" by (simp add: IS_VARIABLE_ASSIGNED_def)
      have vne: "val \<noteq> VAR_UNASSIGNED" by (simp add: val_def)
      have v0: "0 \<le> var" by (simp add: var_def literal_variable_nonneg)
      obtain ok s1 where av: "assign_variable s var val False = (ok, s1)"
        by (cases "assign_variable s var val False")
      show ?thesis
      proof (cases ok)
        case False
        with av have "s1 = s" by (auto simp: assign_variable_def split: if_splits)
        with False av ns Some na Cons.prems show ?thesis
          by (simp add: var_def[symmetric] val_def[symmetric])
      next
        case True
        define s2 where "s2 = s1\<lparr>stats := (stats s1)\<lparr>propagations := propagations (stats s1) + 1\<rparr>,
                                   formula_modified := True\<rparr>"
        from True av ns Some na Cons.prems
        have rec: "unit_propagation_pass cs s2 True = (r, s', p')"
          by (simp add: var_def[symmetric] val_def[symmetric] s2_def)
        from av True have av': "assign_variable s var val False = (True, s1)" by simp
        note m = assign_variable_measure[OF av' un vne v0]
        have f2: "formula s2 = formula s1" and st2: "assignments s2 = assignments s1"
          by (simp_all add: s2_def)
        have u2: "unassigned_count s2 = unassigned_count s1"
          by (rule unassigned_count_cong[OF f2])
        from Cons.IH[OF rec] m u2 show ?thesis by (simp add: f2 st2)
      qed
    qed
  qed
qed

subsection \<open>The loop\<close>

text \<open>
  The \<^verbatim>\<open>do ... while (propagated)\<close> loop. The second argument and the third component
  of the result count the passes that set \<^verbatim>\<open>propagated\<close>: an observation added to the
  model, which the C function does not compute. The loop ends because a pass that
  propagates lowers \<open>unassigned_count\<close>.
\<close>

function unit_propagation_loop ::
  "dpll_solver \<Rightarrow> nat \<Rightarrow> solver_result \<times> dpll_solver \<times> nat" where
  "unit_propagation_loop solver passes =
     (case unit_propagation_pass (clauses (formula solver)) solver False of
        (Some r, solver', propagated) \<Rightarrow>
          (r, solver', if propagated then passes + 1 else passes)
      | (None, solver', propagated) \<Rightarrow>
          if propagated then unit_propagation_loop solver' (passes + 1)
          else if cnf_is_satisfied (formula solver') then (SOLVER_SATISFIABLE, solver', passes)
          else (SOLVER_UNKNOWN, solver', passes))"
  by pat_completeness auto
termination
proof (relation "measure (\<lambda>(solver, passes). unassigned_count solver)")
  show "wf (measure (\<lambda>(solver, passes). unassigned_count solver))" by simp
next
  fix solver :: dpll_solver and passes :: nat and x xa y xb ya
  assume "(x, y) = unit_propagation_pass (clauses (formula solver)) solver False"
    and "x = None" and "(xa, ya) = y" and "ya"
  then have "unit_propagation_pass (clauses (formula solver)) solver False = (None, xa, True)"
    by simp
  from unit_propagation_pass_measure[OF this]
  show "((xa, passes + 1), (solver, passes)) \<in> measure (\<lambda>(solver, passes). unassigned_count solver)"
    by simp
qed

declare unit_propagation_loop.simps [simp del]

definition unit_propagation :: "dpll_solver \<Rightarrow> solver_result \<times> dpll_solver" where
  "unit_propagation solver =
     (case unit_propagation_loop solver 0 of (r, solver', passes) \<Rightarrow> (r, solver'))"

section \<open>Pure-literal elimination (solver.c)\<close>

text \<open>
  The two inner loops of \<^verbatim>\<open>pure_literal_elimination\<close> for one variable: over the literals
  of a clause and over the clauses that are not satisfied, each left by \<^verbatim>\<open>break\<close> as soon as
  both polarities have been seen.
\<close>

fun scan_literals :: "int \<Rightarrow> clause \<Rightarrow> bool \<Rightarrow> bool \<Rightarrow> bool \<times> bool" where
  "scan_literals var [] appears_positive appears_negative = (appears_positive, appears_negative)"
| "scan_literals var (lit # rest) appears_positive appears_negative =
     (if literal_variable lit = var then
        (let appears_positive' = (if literal_is_positive lit then True else appears_positive);
             appears_negative' = (if literal_is_positive lit then appears_negative else True)
         in if appears_positive' \<and> appears_negative' then (appears_positive', appears_negative')
            else scan_literals var rest appears_positive' appears_negative')
      else scan_literals var rest appears_positive appears_negative)"

fun scan_clauses ::
  "int \<Rightarrow> clause list \<Rightarrow> assignment_array \<Rightarrow> bool \<Rightarrow> bool \<Rightarrow> bool \<times> bool" where
  "scan_clauses var [] a appears_positive appears_negative = (appears_positive, appears_negative)"
| "scan_clauses var (c # cs) a appears_positive appears_negative =
     (if clause_is_satisfied c a then scan_clauses var cs a appears_positive appears_negative
      else
        (case scan_literals var c appears_positive appears_negative of
           (appears_positive', appears_negative') \<Rightarrow>
             if appears_positive' \<and> appears_negative' then (appears_positive', appears_negative')
             else scan_clauses var cs a appears_positive' appears_negative'))"

text \<open>
  The body of the outer loop for the variable \<open>var\<close>, on the solver and \<^verbatim>\<open>changed\<close>. The
  return value of \<^verbatim>\<open>assign_variable\<close> is ignored, as in the C code.
\<close>

definition pure_literal_step :: "int \<Rightarrow> dpll_solver \<times> bool \<Rightarrow> dpll_solver \<times> bool" where
  "pure_literal_step var sc =
     (case sc of (solver, changed) \<Rightarrow>
        if IS_VARIABLE_ASSIGNED solver var then
          (solver\<lparr>pure_literals := (pure_literals solver)(var := False)\<rparr>, changed)
        else
          (case scan_clauses var (clauses (formula solver)) (assignment (formula solver)) False False of
             (appears_positive, appears_negative) \<Rightarrow>
               if appears_positive \<and> \<not> appears_negative then
                 ((snd (assign_variable solver var VAR_TRUE False))\<lparr>formula_modified := True\<rparr>, True)
               else if appears_negative \<and> \<not> appears_positive then
                 ((snd (assign_variable solver var VAR_FALSE False))\<lparr>formula_modified := True\<rparr>, True)
               else (solver, changed)))"

definition pure_literal_elimination :: "dpll_solver \<Rightarrow> bool \<times> dpll_solver" where
  "pure_literal_elimination solver =
     (case fold pure_literal_step [1 .. num_variables (formula solver)] (solver, False) of
        (solver', changed) \<Rightarrow> (changed, solver'))"

section \<open>Preprocessing (solver.c)\<close>

subsection \<open>Why the preprocessing loop ends\<close>

lemma unit_propagation_loop_passes:
  "unit_propagation_loop s k = (r, s', n) \<Longrightarrow>
     num_variables (formula s') = num_variables (formula s) \<and>
     clauses (formula s') = clauses (formula s) \<and>
     k \<le> n \<and>
     (n - k) + length (stack (assignments s)) \<le> length (stack (assignments s')) \<and>
     length (stack (assignments s')) + unassigned_count s' =
       length (stack (assignments s)) + unassigned_count s"
proof (induction s k rule: unit_propagation_loop.induct)
  case (1 solver passes)
  obtain ro s1 p where pass: "unit_propagation_pass (clauses (formula solver)) solver False = (ro, s1, p)"
    by (cases "unit_propagation_pass (clauses (formula solver)) solver False")
  note m = unit_propagation_pass_measure[OF pass]
  show ?case
  proof (cases "ro = None \<and> p")
    case True
    with pass "1.prems" have rec: "unit_propagation_loop s1 (passes + 1) = (r, s', n)"
      by (simp add: unit_propagation_loop.simps[of solver])
    from "1.IH"[OF pass[symmetric] _ refl _ rec] True m show ?thesis by auto
  next
    case False
    with pass "1.prems" have "s' = s1" and "n = (if p then passes + 1 else passes)"
      by (auto simp: unit_propagation_loop.simps[of solver] split: option.splits if_splits)
    with m show ?thesis by auto
  qed
qed

lemma pure_literal_step_measure:
  assumes "pure_literal_step var (s, ch) = (s', ch')"
    and "1 \<le> var" and "var \<le> num_variables (formula s)"
  shows "num_variables (formula s') = num_variables (formula s) \<and>
     clauses (formula s') = clauses (formula s) \<and>
     length (stack (assignments s')) + unassigned_count s' =
       length (stack (assignments s)) + unassigned_count s \<and>
     length (stack (assignments s)) \<le> length (stack (assignments s')) \<and>
     (ch' \<and> \<not> ch \<longrightarrow> length (stack (assignments s)) < length (stack (assignments s'))) \<and>
     (ch \<longrightarrow> ch')"
proof (cases "IS_VARIABLE_ASSIGNED s var")
  case True
  with assms(1) have "s' = s\<lparr>pure_literals := (pure_literals s)(var := False)\<rparr>" "ch' = ch"
    by (auto simp: pure_literal_step_def)
  then show ?thesis by (simp add: unassigned_count_def)
next
  case False
  let ?G = "num_variables (formula s') = num_variables (formula s) \<and>
     clauses (formula s') = clauses (formula s) \<and>
     length (stack (assignments s')) + unassigned_count s' =
       length (stack (assignments s)) + unassigned_count s \<and>
     length (stack (assignments s)) \<le> length (stack (assignments s')) \<and>
     (ch' \<and> \<not> ch \<longrightarrow> length (stack (assignments s)) < length (stack (assignments s'))) \<and>
     (ch \<longrightarrow> ch')"
  let ?a = "assignment (formula s)"
  from False have un: "?a var = VAR_UNASSIGNED" by (simp add: IS_VARIABLE_ASSIGNED_def)
  obtain ap an where sc: "scan_clauses var (clauses (formula s)) ?a False False = (ap, an)"
    by (cases "scan_clauses var (clauses (formula s)) ?a False False")
  have ok: "\<And>val. fst (assign_variable s var val False) = True"
    using assms(2,3) by (simp add: assign_variable_def)
  have step: "\<And>val. val \<noteq> VAR_UNASSIGNED \<Longrightarrow>
      s' = (snd (assign_variable s var val False))\<lparr>formula_modified := True\<rparr> \<Longrightarrow> ch' \<Longrightarrow> ?G"
  proof -
    fix val assume vne: "val \<noteq> VAR_UNASSIGNED"
      and s': "s' = (snd (assign_variable s var val False))\<lparr>formula_modified := True\<rparr>" and ch': ch'
    have av: "assign_variable s var val False = (True, snd (assign_variable s var val False))"
      using ok[of val] by (metis prod.collapse)
    have v0: "0 \<le> var" using assms(2) by simp
    note m = assign_variable_measure[OF av un vne v0]
    have "unassigned_count s' = unassigned_count (snd (assign_variable s var val False))"
      unfolding s' by (simp add: unassigned_count_def)
    with m ch' show ?G unfolding s' by simp
  qed
  consider (pos) "ap \<and> \<not> an" | (neg) "an \<and> \<not> ap" | (none) "\<not> (ap \<and> \<not> an) \<and> \<not> (an \<and> \<not> ap)"
    by blast
  then show ?thesis
  proof cases
    case pos
    with False sc assms(1) show ?thesis
      by (intro step[of VAR_TRUE]) (auto simp: pure_literal_step_def)
  next
    case neg
    with False sc assms(1) show ?thesis
      by (intro step[of VAR_FALSE]) (auto simp: pure_literal_step_def)
  next
    case none
    with False sc assms(1) have "s' = s" "ch' = ch" by (auto simp: pure_literal_step_def)
    then show ?thesis by simp
  qed
qed

lemma pure_literal_fold_measure:
  "\<forall>v \<in> set vs. 1 \<le> v \<and> v \<le> num_variables (formula s) \<Longrightarrow>
   fold pure_literal_step vs (s, ch) = (s', ch') \<Longrightarrow>
     num_variables (formula s') = num_variables (formula s) \<and>
     clauses (formula s') = clauses (formula s) \<and>
     length (stack (assignments s')) + unassigned_count s' =
       length (stack (assignments s)) + unassigned_count s \<and>
     length (stack (assignments s)) \<le> length (stack (assignments s')) \<and>
     (ch' \<and> \<not> ch \<longrightarrow> length (stack (assignments s)) < length (stack (assignments s'))) \<and>
     (ch \<longrightarrow> ch')"
proof (induction vs arbitrary: s ch)
  case Nil
  then show ?case by simp
next
  case (Cons v vs)
  obtain s1 ch1 where st: "pure_literal_step v (s, ch) = (s1, ch1)"
    by (cases "pure_literal_step v (s, ch)")
  from Cons.prems(1) have r: "1 \<le> v" "v \<le> num_variables (formula s)" by simp_all
  note one = pure_literal_step_measure[OF st r]
  from Cons.prems(2) st have f: "fold pure_literal_step vs (s1, ch1) = (s', ch')" by simp
  have "\<forall>v \<in> set vs. 1 \<le> v \<and> v \<le> num_variables (formula s1)" using Cons.prems(1) one by simp
  from Cons.IH[OF this f] one show ?case by auto
qed

lemma pure_literal_elimination_measure:
  assumes "pure_literal_elimination s = (ch, s')"
  shows "num_variables (formula s') = num_variables (formula s)"
    and "clauses (formula s') = clauses (formula s)"
    and "length (stack (assignments s')) + unassigned_count s' =
       length (stack (assignments s)) + unassigned_count s"
    and "length (stack (assignments s)) \<le> length (stack (assignments s'))"
    and "ch \<Longrightarrow> length (stack (assignments s)) < length (stack (assignments s'))"
proof -
  from assms have f: "fold pure_literal_step [1 .. num_variables (formula s)] (s, False) = (s', ch)"
    by (auto simp: pure_literal_elimination_def split: prod.splits)
  have "\<forall>v \<in> set [1 .. num_variables (formula s)]. 1 \<le> v \<and> v \<le> num_variables (formula s)" by simp
  note m = pure_literal_fold_measure[OF this f]
  from m show "num_variables (formula s') = num_variables (formula s)" by simp
  from m show "clauses (formula s') = clauses (formula s)" by simp
  from m show "length (stack (assignments s')) + unassigned_count s' =
       length (stack (assignments s)) + unassigned_count s" by simp
  from m show "length (stack (assignments s)) \<le> length (stack (assignments s'))" by simp
  from m show "ch \<Longrightarrow> length (stack (assignments s)) < length (stack (assignments s'))" by simp
qed

lemma unit_propagation_measure:
  assumes "unit_propagation s = (r, s')"
  shows "num_variables (formula s') = num_variables (formula s)"
    and "clauses (formula s') = clauses (formula s)"
    and "length (stack (assignments s')) + unassigned_count s' =
       length (stack (assignments s)) + unassigned_count s"
    and "length (stack (assignments s)) \<le> length (stack (assignments s'))"
proof -
  obtain n where l: "unit_propagation_loop s 0 = (r, s', n)"
    using assms by (auto simp: unit_propagation_def split: prod.splits)
  note p = unit_propagation_loop_passes[OF l]
  from p show "length (stack (assignments s')) + unassigned_count s' =
       length (stack (assignments s)) + unassigned_count s" by simp
  from p show "length (stack (assignments s)) \<le> length (stack (assignments s'))" by simp
  from p show "num_variables (formula s') = num_variables (formula s)" by simp
  from p show "clauses (formula s') = clauses (formula s)" by simp
qed

subsection \<open>The loop\<close>

text \<open>
  \<^verbatim>\<open>preprocess_formula\<close>: the \<^verbatim>\<open>do ... while (changed)\<close> loop, left early when a clause is
  conflicting. It always returns true. A round that changes something lengthens the
  stack, which lowers \<open>unassigned_count\<close>.
\<close>

definition eliminate_pure_literals_preprocessing :: "dpll_solver \<Rightarrow> bool \<times> dpll_solver" where
  "eliminate_pure_literals_preprocessing solver = pure_literal_elimination solver"

function preprocess_formula :: "dpll_solver \<Rightarrow> bool \<times> dpll_solver" where
  "preprocess_formula solver =
     (let size_before = length (stack (assignments solver)) in
      case eliminate_pure_literals_preprocessing solver of
        (pure_changed, solver1) \<Rightarrow>
          (case unit_propagation solver1 of
             (r, solver2) \<Rightarrow>
               (let changed = (pure_changed \<or> length (stack (assignments solver2)) \<noteq> size_before)
                in if has_conflict solver2 then (True, solver2)
                   else if changed then preprocess_formula solver2
                   else (True, solver2))))"
  by pat_completeness auto
termination
proof (relation "measure unassigned_count")
  show "wf (measure unassigned_count)" by simp
next
  fix solver :: dpll_solver and size_before x1 x2 y1 y2 changed
  assume b: "size_before = length (stack (assignments solver))"
    and p: "(x1, x2) = eliminate_pure_literals_preprocessing solver"
    and u: "(y1, y2) = unit_propagation x2"
    and c: "changed = (x1 \<or> length (stack (assignments y2)) \<noteq> size_before)"
    and "\<not> has_conflict y2" and ch: "changed"
  from p have p': "pure_literal_elimination solver = (x1, x2)"
    by (simp add: eliminate_pure_literals_preprocessing_def)
  note mp = pure_literal_elimination_measure[OF p']
  note mu = unit_propagation_measure[OF u[symmetric]]
  from ch c b mp(4,5) mu(4) have "length (stack (assignments solver)) < length (stack (assignments y2))"
    by auto
  with mp(3) mu(3) show "(y2, solver) \<in> measure unassigned_count" by simp
qed

declare preprocess_formula.simps [simp del]

section \<open>Decision heuristics (solver.c)\<close>

definition choose_decision_value :: "dpll_solver \<Rightarrow> int \<Rightarrow> var_assignment" where
  "choose_decision_value solver var = (if var = 0 then VAR_UNASSIGNED else VAR_TRUE)"

fun decision_first_unassigned_loop :: "int list \<Rightarrow> dpll_solver \<Rightarrow> int" where
  "decision_first_unassigned_loop [] solver = 0"
| "decision_first_unassigned_loop (var # vars) solver =
     (if \<not> IS_VARIABLE_ASSIGNED solver var then var
      else decision_first_unassigned_loop vars solver)"

definition decision_first_unassigned :: "dpll_solver \<Rightarrow> int" where
  "decision_first_unassigned solver =
     decision_first_unassigned_loop [1 .. num_variables (formula solver)] solver"

text \<open>
  \<^verbatim>\<open>calculate_literal_frequency\<close>: the inner loop looks for the literal in a clause and
  stops at the first occurrence; the outer loop counts the clauses that are not
  satisfied and contain it.
\<close>

fun clause_has_literal :: "clause \<Rightarrow> literal \<Rightarrow> bool" where
  "clause_has_literal [] literal = False"
| "clause_has_literal (l # ls) literal =
     (if l = literal then True else clause_has_literal ls literal)"

fun calculate_literal_frequency_loop ::
  "clause list \<Rightarrow> assignment_array \<Rightarrow> literal \<Rightarrow> nat \<Rightarrow> nat" where
  "calculate_literal_frequency_loop [] a literal frequency = frequency"
| "calculate_literal_frequency_loop (c # cs) a literal frequency =
     (if clause_is_satisfied c a then calculate_literal_frequency_loop cs a literal frequency
      else if clause_has_literal c literal then
        calculate_literal_frequency_loop cs a literal (frequency + 1)
      else calculate_literal_frequency_loop cs a literal frequency)"

definition calculate_literal_frequency :: "dpll_solver \<Rightarrow> literal \<Rightarrow> nat" where
  "calculate_literal_frequency solver literal =
     calculate_literal_frequency_loop (clauses (formula solver)) (assignment (formula solver))
       literal 0"

text \<open>
  \<^verbatim>\<open>decision_most_frequent\<close>: the loop carries \<^verbatim>\<open>best_var\<close> and \<^verbatim>\<open>max_frequency\<close>, both 0 at
  the start, and replaces them on a strictly larger total.
\<close>

fun decision_most_frequent_loop :: "int list \<Rightarrow> dpll_solver \<Rightarrow> int \<Rightarrow> nat \<Rightarrow> int" where
  "decision_most_frequent_loop [] solver best_var max_frequency = best_var"
| "decision_most_frequent_loop (var # vars) solver best_var max_frequency =
     (if IS_VARIABLE_ASSIGNED solver var then
        decision_most_frequent_loop vars solver best_var max_frequency
      else
        (let pos_freq = calculate_literal_frequency solver var;
             neg_freq = calculate_literal_frequency solver (- var);
             total_freq = pos_freq + neg_freq
         in if total_freq > max_frequency then
              decision_most_frequent_loop vars solver var total_freq
            else decision_most_frequent_loop vars solver best_var max_frequency))"

definition decision_most_frequent :: "dpll_solver \<Rightarrow> int" where
  "decision_most_frequent solver =
     decision_most_frequent_loop [1 .. num_variables (formula solver)] solver 0 0"

text \<open>
  What the driver reads from outside the solver state, as parameters of the model:
  \<^item> \<open>solver_is_timeout_at i\<close>: the value of \<^verbatim>\<open>solver_is_timeout\<close> in iteration \<open>i\<close>, which
    compares the processor clock with \<^verbatim>\<open>timeout_seconds\<close>;
  \<^item> \<open>decision_jeroslow_wang_at i\<close>: the variable \<^verbatim>\<open>decision_jeroslow_wang\<close> returns in
    iteration \<open>i\<close>, a maximum over scores computed in double precision;
  \<^item> \<open>decision_random_at i\<close>: the variable \<^verbatim>\<open>decision_random\<close> returns in iteration \<open>i\<close>, which
    depends on the state of the process-wide generator.
  The theorems about the driver hold for every value of these parameters.
\<close>

record environment =
  solver_is_timeout_at :: "nat \<Rightarrow> bool"
  decision_jeroslow_wang_at :: "nat \<Rightarrow> dpll_solver \<Rightarrow> int"
  decision_random_at :: "nat \<Rightarrow> dpll_solver \<Rightarrow> int"

definition choose_decision_variable :: "environment \<Rightarrow> nat \<Rightarrow> dpll_solver \<Rightarrow> int" where
  "choose_decision_variable env iterations solver =
     (case decision_strategy (config solver) of
        DECISION_FIRST_UNASSIGNED \<Rightarrow> decision_first_unassigned solver
      | DECISION_MOST_FREQUENT \<Rightarrow> decision_most_frequent solver
      | DECISION_JEROSLOW_WANG \<Rightarrow> decision_jeroslow_wang_at env iterations solver
      | DECISION_RANDOM \<Rightarrow> decision_random_at env iterations solver)"

section \<open>Backtracking (solver.c)\<close>

text \<open>
  The backward scan for the last decision: \<open>find_last_decision st n\<close> examines the
  indices \<open>n - 1\<close> down to 0; \<open>None\<close> is the index \<open>-1\<close>.
\<close>

fun find_last_decision :: "assignment_entry list \<Rightarrow> nat \<Rightarrow> nat option" where
  "find_last_decision st 0 = None"
| "find_last_decision st (Suc i) =
     (if is_decision (st ! i) then Some i else find_last_decision st i)"

text \<open>
  The loop that unstacks the entries above the decision, without \<^verbatim>\<open>assignment_stack_pop\<close>:
  it clears the variable of the top entry and shortens the stack, while the size is
  above \<open>last_decision_idx + 1\<close>. It does not touch \<^verbatim>\<open>decision_level\<close>.
\<close>

function backtrack_unstack ::
  "assignment_entry list \<Rightarrow> nat \<Rightarrow> assignment_array \<Rightarrow> assignment_entry list \<times> assignment_array" where
  "backtrack_unstack st last_decision_idx a =
     (if length st > last_decision_idx + 1 then
        backtrack_unstack (butlast st) last_decision_idx ((a)(variable (last st) := VAR_UNASSIGNED))
      else (st, a))"
  by pat_completeness auto
termination
  by (relation "measure (\<lambda>(st, idx, a). length st)") auto

declare backtrack_unstack.simps [simp del]

text \<open>
  \<^verbatim>\<open>backtrack\<close>. The scan index is an \<^verbatim>\<open>int\<close> in the C code; the model takes the stack to
  have fewer than \<open>2^31\<close> entries.
\<close>

definition backtrack :: "dpll_solver \<Rightarrow> bool \<times> dpll_solver" where
  "backtrack solver =
     (let st = stack (assignments solver) in
      if length st = 0 then (False, solver)
      else
        (case find_last_decision st (length st) of
           None \<Rightarrow> (False, solver)
         | Some last_decision_idx \<Rightarrow>
             (case backtrack_unstack st last_decision_idx (assignment (formula solver)) of
                (st1, a1) \<Rightarrow>
                  (let decision_entry = st1 ! (length st1 - 1);
                       a2 = a1(variable decision_entry := VAR_UNASSIGNED);
                       st2 = butlast st1;
                       solver1 = solver\<lparr>formula := (formula solver)\<lparr>assignment := a2\<rparr>,
                                        assignments := (assignments solver)\<lparr>stack := st2\<rparr>\<rparr>;
                       opposite_value =
                         (if entry_value decision_entry = VAR_TRUE then VAR_FALSE else VAR_TRUE)
                   in assign_variable solver1 (variable decision_entry) opposite_value True))))"

section \<open>Restarts (solver.c)\<close>

definition should_restart :: "dpll_solver \<Rightarrow> bool" where
  "should_restart solver = (conflicts_since_restart solver \<ge> restart_threshold (config solver))"

definition unassign_until_level :: "dpll_solver \<Rightarrow> nat \<Rightarrow> dpll_solver" where
  "unassign_until_level solver lvl =
     (let st = assignment_stack_backtrack_to_level (assignments solver) lvl;
          cleared = fold (\<lambda>var a. a(var := VAR_UNASSIGNED))
                      [1 .. num_variables (formula solver)] (assignment (formula solver));
          reapplied = fold (\<lambda>entry a. a(variable entry := entry_value entry)) (stack st) cleared
      in solver\<lparr>assignments := st, formula := (formula solver)\<lparr>assignment := reapplied\<rparr>\<rparr>)"

definition perform_restart :: "dpll_solver \<Rightarrow> dpll_solver" where
  "perform_restart solver =
     (let solver1 = unassign_until_level solver 0
      in solver1\<lparr>stats := (stats solver1)\<lparr>restarts := restarts (stats solver1) + 1\<rparr>\<rparr>)"

section \<open>The DPLL driver (solver.c, main.c)\<close>

text \<open>
  The pattern \<^verbatim>\<open>if (!backtrack(solver)) return SOLVER_UNSATISFIABLE; continue;\<close> that the
  driver repeats after each conflict test. In the result of an iteration, \<open>Some r\<close> is
  \<^verbatim>\<open>return r\<close> and \<open>None\<close> is the next turn of the loop.
\<close>

definition backtrack_or_unsat :: "dpll_solver \<Rightarrow> solver_result option \<times> dpll_solver" where
  "backtrack_or_unsat solver =
     (case backtrack solver of
        (False, solver') \<Rightarrow> (Some SOLVER_UNSATISFIABLE, solver')
      | (True, solver') \<Rightarrow> (None, solver'))"

text \<open>
  One turn of the \<^verbatim>\<open>while\<close> loop of \<^verbatim>\<open>dpll_algorithm\<close>; \<open>iterations\<close> is the counter after
  its increment. \<^verbatim>\<open>prev_assign_count\<close> and the earlier writes to \<^verbatim>\<open>progress_made\<close> only feed
  the test at the end of the body, which the decision reaches with \<^verbatim>\<open>progress_made\<close> set.
  The \<^verbatim>\<open>default\<close> branch of \<^verbatim>\<open>choose_decision_variable\<close> is for values outside the
  enumeration, which the datatype does not have.
\<close>

definition dpll_iteration ::
  "environment \<Rightarrow> nat \<Rightarrow> dpll_solver \<Rightarrow> solver_result option \<times> dpll_solver" where
  "dpll_iteration env iterations solver =
     (if solver_is_timeout_at env iterations then (Some SOLVER_TIMEOUT, solver)
      else if is_formula_satisfied solver then (Some SOLVER_SATISFIABLE, solver)
      else if has_conflict solver then backtrack_or_unsat solver
      else
        (let solver1 = (if enable_unit_propagation (config solver)
                        then snd (unit_propagation solver) else solver)
         in if enable_unit_propagation (config solver) \<and> has_conflict solver1 then
              backtrack_or_unsat solver1
            else
              (let solver2 = (if enable_pure_literal (config solver1)
                              then snd (pure_literal_elimination solver1) else solver1)
               in if enable_pure_literal (config solver1) \<and> has_conflict solver2 then
                    backtrack_or_unsat solver2
                  else
                    (let decision_var = choose_decision_variable env iterations solver2
                     in if decision_var = 0 then
                          (if is_formula_satisfied solver2 then (Some SOLVER_SATISFIABLE, solver2)
                           else (Some SOLVER_UNSATISFIABLE, solver2))
                        else
                          (case assign_variable solver2 decision_var
                                  (choose_decision_value solver2 decision_var) True of
                             (False, solver3) \<Rightarrow> (Some SOLVER_ERROR, solver3)
                           | (True, solver3) \<Rightarrow>
                               (let progress_made = True;
                                    solver4 = solver3\<lparr>stats := (stats solver3)
                                                \<lparr>decisions := decisions (stats solver3) + 1\<rparr>\<rparr>
                                in if max_decisions (config solver4) > 0 \<and>
                                      decisions (stats solver4) \<ge> max_decisions (config solver4)
                                   then (Some SOLVER_UNKNOWN, solver4)
                                   else
                                     (let solver5 =
                                            (if enable_restarts (config solver4) \<and>
                                                should_restart solver4
                                             then (perform_restart solver4)
                                                    \<lparr>conflicts_since_restart := 0\<rparr>
                                             else solver4)
                                      in if \<not> progress_made then (Some SOLVER_UNKNOWN, solver5)
                                         else (None, solver5))))))))"

definition max_iterations :: nat where
  "max_iterations = 1000"

function dpll_loop :: "environment \<Rightarrow> nat \<Rightarrow> dpll_solver \<Rightarrow> solver_result \<times> dpll_solver" where
  "dpll_loop env iterations solver =
     (if iterations < max_iterations then
        (case dpll_iteration env (iterations + 1) solver of
           (Some r, solver') \<Rightarrow> (r, solver')
         | (None, solver') \<Rightarrow> dpll_loop env (iterations + 1) solver')
      else (SOLVER_TIMEOUT, solver))"
  by pat_completeness auto
termination
  by (relation "measure (\<lambda>(env, iterations, solver). max_iterations - iterations)") auto

declare dpll_loop.simps [simp del]

definition dpll_algorithm :: "environment \<Rightarrow> dpll_solver \<Rightarrow> solver_result \<times> dpll_solver" where
  "dpll_algorithm env solver = dpll_loop env 0 solver"

text \<open>
  \<^verbatim>\<open>solver_solve\<close>, without the timers. The default it writes into \<^verbatim>\<open>timeout_seconds\<close> is
  part of \<open>solver_is_timeout_at\<close>.
\<close>

definition solver_solve :: "environment \<Rightarrow> dpll_solver \<Rightarrow> solver_result \<times> dpll_solver" where
  "solver_solve env solver =
     (if enable_preprocessing (config solver) then
        (case preprocess_formula solver of
           (False, solver1) \<Rightarrow> (SOLVER_MEMORY_ERROR, solver1)
         | (True, solver1) \<Rightarrow>
             if length (clauses (formula solver1)) = 0 then (SOLVER_SATISFIABLE, solver1)
             else if has_conflict solver1 then (SOLVER_UNSATISFIABLE, solver1)
             else dpll_algorithm env
                    (solver1\<lparr>config := (config solver1)
                       \<lparr>max_decisions := (if max_decisions (config solver1) = 0 then 1000
                                           else max_decisions (config solver1))\<rparr>\<rparr>))
      else dpll_algorithm env
             (solver\<lparr>config := (config solver)
                \<lparr>max_decisions := (if max_decisions (config solver) = 0 then 1000
                                    else max_decisions (config solver))\<rparr>\<rparr>))"

text \<open>
  The model line of \<^verbatim>\<open>main.c\<close> (\<^verbatim>\<open>print_class_model_line\<close>): one pair of variable and bit
  for each variable, the bit 1 for \<^verbatim>\<open>VAR_TRUE\<close> and 0 otherwise.
\<close>

definition print_class_model_line :: "cnf_formula \<Rightarrow> (int \<times> nat) list" where
  "print_class_model_line f =
     map (\<lambda>var. (var, if assignment f var = VAR_TRUE then 1 else 0)) [1 .. num_variables f]"

section \<open>The clause-line reader (parser.c, utils.c)\<close>

datatype parse_result =
  PARSE_OK | PARSE_ERROR_FILE_NOT_FOUND | PARSE_ERROR_INVALID_FORMAT | PARSE_ERROR_MEMORY
  | PARSE_ERROR_NO_PROBLEM_LINE | PARSE_ERROR_INVALID_PROBLEM_LINE | PARSE_ERROR_INVALID_CLAUSE
  | PARSE_ERROR_VARIABLE_OUT_OF_RANGE | PARSE_ERROR_CLAUSE_NOT_TERMINATED | PARSE_ERROR_EMPTY_FILE

text \<open>
  \<^verbatim>\<open>strtok(line_copy, " \t")\<close>, called until it returns \<^verbatim>\<open>NULL\<close>: the tokens of a line are
  its maximal runs of characters other than space and tab.
\<close>

definition is_delimiter :: "char \<Rightarrow> bool" where
  "is_delimiter c = (c = CHR '' '' \<or> c = CHR 0x09)"

fun strtok_loop :: "string \<Rightarrow> string \<Rightarrow> string list" where
  "strtok_loop [] token = (if token = [] then [] else [token])"
| "strtok_loop (c # cs) token =
     (if is_delimiter c then
        (if token = [] then strtok_loop cs [] else token # strtok_loop cs [])
      else strtok_loop cs (token @ [c]))"

definition strtok_tokens :: "string \<Rightarrow> string list" where
  "strtok_tokens line = strtok_loop line []"

text \<open>
  \<^verbatim>\<open>parse_int\<close> of \<^verbatim>\<open>utils.c\<close>: \<^verbatim>\<open>strtol\<close> in base 10 skips white space, takes an optional
  sign and the digits that follow; the token is refused when no digit was read
  (\<^verbatim>\<open>endptr == str\<close>), when a character follows the digits, and when the value is outside
  \<^verbatim>\<open>int32_t\<close>. The value is computed in \<open>int\<close>: \<^verbatim>\<open>long\<close> is taken to be 64 bits wide, where
  \<^verbatim>\<open>strtol\<close> clamps an overflowing value to one outside \<^verbatim>\<open>int32_t\<close>.
\<close>

definition isspace :: "char \<Rightarrow> bool" where
  "isspace c = (c = CHR '' '' \<or> c = CHR 0x09 \<or> c = CHR 0x0A \<or> c = CHR 0x0B \<or>
                c = CHR 0x0C \<or> c = CHR 0x0D)"

definition isdigit :: "char \<Rightarrow> bool" where
  "isdigit c = (48 \<le> (of_char c :: nat) \<and> (of_char c :: nat) \<le> 57)"

definition digits_value :: "string \<Rightarrow> int" where
  "digits_value ds = foldl (\<lambda>acc c. acc * 10 + (int (of_char c) - 48)) 0 ds"

definition parse_int :: "string \<Rightarrow> int option" where
  "parse_int str =
     (let after_space = dropWhile isspace str;
          negative = (after_space \<noteq> [] \<and> hd after_space = CHR ''-'');
          signed = (after_space \<noteq> [] \<and> (hd after_space = CHR ''-'' \<or> hd after_space = CHR ''+''));
          after_sign = (if signed then tl after_space else after_space);
          digits = takeWhile isdigit after_sign;
          endptr = dropWhile isdigit after_sign
      in if digits = [] then None
         else if endptr \<noteq> [] then None
         else (let v = (if negative then - digits_value digits else digits_value digits)
               in if v < INT32_MIN \<or> v > INT32_MAX then None else Some v))"

text \<open>
  \<^verbatim>\<open>parse_clause_line\<close>: the \<^verbatim>\<open>while (token)\<close> loop over the tokens, with the clause built
  so far. The loop returns at the first token that is not an integer, is 0, or is out of
  range; when the tokens run out, \<^verbatim>\<open>terminated\<close> is still false. The result is \<open>None\<close>
  when the loop reaches a token at which \<^verbatim>\<open>is_valid_literal\<close> is undefined.
\<close>

fun parse_clause_tokens ::
  "string list \<Rightarrow> clause \<Rightarrow> int \<Rightarrow> (parse_result \<times> clause) option" where
  "parse_clause_tokens [] c max_variables = Some (PARSE_ERROR_CLAUSE_NOT_TERMINATED, c)"
| "parse_clause_tokens (token # rest) c max_variables =
     (case parse_int token of
        None \<Rightarrow> Some (PARSE_ERROR_INVALID_CLAUSE, c)
      | Some lit \<Rightarrow>
          if lit = 0 then Some (PARSE_OK, c)
          else
            (case is_valid_literal lit max_variables of
               None \<Rightarrow> None
             | Some False \<Rightarrow> Some (PARSE_ERROR_VARIABLE_OUT_OF_RANGE, c)
             | Some True \<Rightarrow>
                 (case clause_add_literal c lit of
                    None \<Rightarrow> Some (PARSE_ERROR_MEMORY, c)
                  | Some c' \<Rightarrow> parse_clause_tokens rest c' max_variables)))"

definition parse_clause_line ::
  "string \<Rightarrow> clause \<Rightarrow> int \<Rightarrow> (parse_result \<times> clause) option" where
  "parse_clause_line line c max_variables =
     parse_clause_tokens (strtok_tokens line) c max_variables"

text \<open>
  \<^verbatim>\<open>trim_string\<close> and \<^verbatim>\<open>string_starts_with\<close> of \<^verbatim>\<open>utils.c\<close>, and the line tests of
  \<^verbatim>\<open>parser.c\<close>.
\<close>

definition trim_string :: "string \<Rightarrow> string" where
  "trim_string str = rev (dropWhile isspace (rev (dropWhile isspace str)))"

definition string_starts_with :: "string \<Rightarrow> string \<Rightarrow> bool" where
  "string_starts_with str prefix = (take (length prefix) str = prefix)"

definition is_comment_line :: "string \<Rightarrow> bool" where
  "is_comment_line line = (case line of [] \<Rightarrow> False | ch # rest \<Rightarrow> ch = CHR ''c'')"

definition is_problem_line :: "string \<Rightarrow> bool" where
  "is_problem_line line = string_starts_with line ''p ''"

fun is_empty_line :: "string \<Rightarrow> bool" where
  "is_empty_line [] = True"
| "is_empty_line (ch # rest) = (if \<not> isspace ch then False else is_empty_line rest)"


text \<open>
  The body of the \<^verbatim>\<open>while (fgets ...)\<close> loop of \<^verbatim>\<open>parser_parse_stream\<close> once the problem line
  has been read (\<^verbatim>\<open>problem_line_found\<close> is true and the formula exists), on the characters
  \<^verbatim>\<open>fgets\<close> stored: the line is counted, cut at the newline and trimmed; an empty line and
  a comment are skipped; a second problem line is an error; any other line is a clause
  line. In the result \<open>Some r\<close> is \<^verbatim>\<open>return r\<close> and \<open>None\<close> goes on with the next line; the
  clause starts empty (\<^verbatim>\<open>clause_create\<close>). The whole result is \<open>None\<close> when
  \<^verbatim>\<open>parse_clause_line\<close> is undefined on the line.
\<close>

record cnf_parser =
  parser_formula :: cnf_formula
  line_number :: int
  max_variables :: int
  parsed_clauses :: int
  strict_mode :: bool

definition parser_parse_stream_line ::
  "cnf_parser \<Rightarrow> string \<Rightarrow> (parse_result option \<times> cnf_parser) option" where
  "parser_parse_stream_line parser0 line =
     (let parser = parser0\<lparr>line_number := line_number parser0 + 1\<rparr>;
          trimmed_line = trim_string (takeWhile (\<lambda>ch. ch \<noteq> CHR 0x0A) line)
      in if is_empty_line trimmed_line then Some (None, parser)
         else if is_comment_line trimmed_line then Some (None, parser)
         else if is_problem_line trimmed_line then
           Some (Some PARSE_ERROR_INVALID_PROBLEM_LINE, parser)
         else
           (case parse_clause_line trimmed_line [] (max_variables parser) of
              None \<Rightarrow> None
            | Some (result, c) \<Rightarrow>
                if result \<noteq> PARSE_OK then Some (Some result, parser)
                else if length c = 0 then
                  (if strict_mode parser then Some (Some PARSE_ERROR_INVALID_CLAUSE, parser)
                   else Some (None, parser))
                else if clause_is_tautology c then Some (None, parser)
                else Some (None,
                       parser\<lparr>parser_formula := cnf_add_clause (parser_formula parser) c,
                              parsed_clauses := parsed_clauses parser + 1\<rparr>)))"

section \<open>Predicates of the specification\<close>


text \<open>
  The completion of an assignment that the model line prints: an unassigned variable is
  false.
\<close>

definition complete_assignment :: "assignment_array \<Rightarrow> assignment_array" where
  "complete_assignment a = (\<lambda>v. if a v = VAR_UNASSIGNED then VAR_FALSE else a v)"

text \<open>
  The agreement of the assignment with the stack (invariants 1 and 2 of the
  specification): no variable has two entries, every entry's variable holds the entry's
  value, and every assigned variable of \<open>1..N\<close> has an entry.
\<close>

definition stack_agrees :: "dpll_solver \<Rightarrow> bool" where
  "stack_agrees solver =
     (distinct (map variable (stack (assignments solver))) \<and>
      (\<forall>e \<in> set (stack (assignments solver)).
         assignment (formula solver) (variable e) = entry_value e) \<and>
      (\<forall>v \<in> set [1 .. num_variables (formula solver)].
         assignment (formula solver) v \<noteq> VAR_UNASSIGNED \<longrightarrow>
           v \<in> variable ` set (stack (assignments solver))))"

text \<open>
  The level bookkeeping of the stack: \<^verbatim>\<open>decision_level\<close> is the number of entries that
  are decisions.
\<close>

definition level_matches_decisions :: "assignment_stack \<Rightarrow> bool" where
  "level_matches_decisions st = (decision_level st = length (filter is_decision (stack st)))"

text \<open>
  \<open>total_frequency\<close> is the score \<^verbatim>\<open>pos_freq + neg_freq\<close> of a variable; \<open>unassigned\<close> is the
  set of variables the loop does not skip.
\<close>

definition total_frequency :: "dpll_solver \<Rightarrow> int \<Rightarrow> nat" where
  "total_frequency solver var =
     calculate_literal_frequency solver var + calculate_literal_frequency solver (- var)"

definition unassigned :: "dpll_solver \<Rightarrow> int set" where
  "unassigned s = {v \<in> {1 .. num_variables (formula s)}. \<not> IS_VARIABLE_ASSIGNED s v}"


section \<open>Concrete solver states\<close>

text \<open>
  The formula \<open>(x1) \<and> (\<not>x1 \<or> x2)\<close> over two variables, in a fresh solver: propagation
  assigns \<open>x1\<close>, then \<open>x2\<close>, in one pass.
\<close>

definition example_chain :: dpll_solver where
  "example_chain =
     solver_create \<lparr>clauses = [[1], [-1, 2]], num_variables = 2, assignment = (\<lambda>_. VAR_UNASSIGNED)\<rparr>"

text \<open>
  An environment in which the clock never times out and the two parameterised heuristics
  pick the first unassigned variable; and the formula
  \<open>(x1 \<or> x2) \<and> (\<not>x1 \<or> x3) \<and> (\<not>x2 \<or> \<not>x3)\<close> in a solver that decides on the first unassigned
  variable, without preprocessing and pure-literal elimination.
\<close>

definition quiet_environment :: environment where
  "quiet_environment =
     \<lparr>solver_is_timeout_at = (\<lambda>i. False),
      decision_jeroslow_wang_at = (\<lambda>i. decision_first_unassigned),
      decision_random_at = (\<lambda>i. decision_first_unassigned)\<rparr>"

definition example_three :: dpll_solver where
  "example_three =
     solver_create_with_config
       \<lparr>clauses = [[1, 2], [-1, 3], [-2, -3]], num_variables = 3,
        assignment = (\<lambda>_. VAR_UNASSIGNED)\<rparr>
       (DEFAULT_SOLVER_CONFIG\<lparr>decision_strategy := DECISION_FIRST_UNASSIGNED,
                              enable_pure_literal := False, enable_preprocessing := False\<rparr>)"

text \<open>
  The state the driver reaches on that formula after deciding \<open>x1\<close> and propagating \<open>x3\<close>.
\<close>

definition example_backtrack :: dpll_solver where
  "example_backtrack =
     snd (assign_variable (snd (assign_variable example_three 1 VAR_TRUE True)) 3 VAR_TRUE False)"

text \<open>
  The unsatisfiable formula \<open>(x1 \<or> x2) \<and> (x1 \<or> \<not>x2) \<and> (\<not>x1 \<or> x2) \<and> (\<not>x1 \<or> \<not>x2)\<close>, and the
  formula \<open>(x1)\<close> over two variables, of which the second occurs in no clause, in a solver
  that decides on the most frequent variable.
\<close>

definition example_four :: dpll_solver where
  "example_four =
     solver_create_with_config
       \<lparr>clauses = [[1, 2], [1, -2], [-1, 2], [-1, -2]], num_variables = 2,
        assignment = (\<lambda>_. VAR_UNASSIGNED)\<rparr>
       (DEFAULT_SOLVER_CONFIG\<lparr>decision_strategy := DECISION_FIRST_UNASSIGNED,
                              enable_pure_literal := False, enable_preprocessing := False\<rparr>)"

definition example_unused :: dpll_solver where
  "example_unused =
     solver_create_with_config
       \<lparr>clauses = [[1]], num_variables = 2, assignment = (\<lambda>_. VAR_UNASSIGNED)\<rparr>
       (DEFAULT_SOLVER_CONFIG\<lparr>decision_strategy := DECISION_MOST_FREQUENT,
                              enable_preprocessing := False\<rparr>)"



section \<open>Facts about the evaluation primitives\<close>

lemma clause_is_conflicting_iff:
  "clause_is_conflicting c a \<longleftrightarrow>
     (\<forall>l \<in> set c. a (literal_variable l) \<noteq> VAR_UNASSIGNED \<and> \<not> literal_satisfied a l)"
  by (induction c) auto

lemma cnf_is_satisfied_loop_iff:
  "cnf_is_satisfied_loop cs a \<longleftrightarrow> (\<forall>c \<in> set cs. clause_is_satisfied c a)"
  by (induction cs) auto

lemma cnf_has_conflict_loop_iff:
  "cnf_has_conflict_loop cs a \<longleftrightarrow> (\<exists>c \<in> set cs. clause_is_conflicting c a)"
  by (induction cs) auto

lemma clause_is_unit_loop_satisfied:
  "clause_is_satisfied c a \<Longrightarrow> clause_is_unit_loop c a ul n = None"
  by (induction c arbitrary: ul n) auto

section \<open>Facts about unit propagation\<close>

lemma unit_propagation_pass_counters:
  "unit_propagation_pass cs s p = (r, s', p') \<Longrightarrow>
     r \<noteq> Some SOLVER_UNKNOWN \<and>
     conflicts (stats s') = conflicts (stats s) \<and>
     conflicts_since_restart s' = conflicts_since_restart s"
proof (induction cs arbitrary: s p)
  case Nil
  then show ?case by auto
next
  case (Cons c cs)
  let ?a = "assignment (formula s)"
  show ?case
  proof (cases "clause_is_unit c ?a")
    case None
    with Cons.prems have "unit_propagation_pass cs s p = (r, s', p')"
      by (simp split: if_splits)
    from Cons.IH[OF this] show ?thesis .
  next
    case (Some ul)
    hence na: "\<not> IS_VARIABLE_ASSIGNED s (literal_variable ul)"
      and ns: "\<not> clause_is_satisfied c ?a"
      using clause_is_unit_Some[OF Some] by (simp_all add: IS_VARIABLE_ASSIGNED_def)
    show ?thesis
      using Cons.prems Some na ns 
      by (auto simp: Let_def assign_variable_def split: if_splits dest!: Cons.IH)
  qed
qed

lemma unit_propagation_loop_counters:
  "unit_propagation_loop s k = (r, s', n) \<Longrightarrow>
     conflicts (stats s') = conflicts (stats s) \<and>
     conflicts_since_restart s' = conflicts_since_restart s"
proof (induction s k rule: unit_propagation_loop.induct)
  case (1 solver passes)
  obtain ro s1 p where pass: "unit_propagation_pass (clauses (formula solver)) solver False = (ro, s1, p)"
    by (cases "unit_propagation_pass (clauses (formula solver)) solver False")
  note c = unit_propagation_pass_counters[OF pass]
  show ?case
  proof (cases "ro = None \<and> p")
    case True
    with pass "1.prems" have rec: "unit_propagation_loop s1 (passes + 1) = (r, s', n)"
      by (simp add: unit_propagation_loop.simps[of solver])
    from "1.IH"[OF pass[symmetric] _ refl _ rec] True c show ?thesis by simp
  next
    case False
    with pass "1.prems" have "s' = s1"
      by (auto simp: unit_propagation_loop.simps[of solver] split: option.splits if_splits)
    with c show ?thesis by simp
  qed
qed




lemma unassigned_count_le: "unassigned_count s \<le> nat (num_variables (formula s))"
proof -
  have "card {v \<in> {1 .. num_variables (formula s)}. assignment (formula s) v = VAR_UNASSIGNED}
          \<le> card {1 .. num_variables (formula s)}"
    by (rule card_mono) auto
  then show ?thesis by (simp add: unassigned_count_def)
qed

section \<open>Facts about pure-literal elimination\<close>

lemma scan_literals_sound:
  "scan_literals var c ap an = (ap', an') \<Longrightarrow>
     (ap \<longrightarrow> ap') \<and> (an \<longrightarrow> an') \<and>
     (\<not> an' \<longrightarrow> (\<forall>l \<in> set c. literal_variable l = var \<longrightarrow> literal_is_positive l)) \<and>
     (\<not> ap' \<longrightarrow> (\<forall>l \<in> set c. literal_variable l = var \<longrightarrow> \<not> literal_is_positive l))"
  by (induction c arbitrary: ap an) (auto simp: Let_def split: if_splits)

lemma scan_clauses_sound:
  "scan_clauses var cs a ap an = (ap', an') \<Longrightarrow>
     (ap \<longrightarrow> ap') \<and> (an \<longrightarrow> an') \<and>
     (\<not> an' \<longrightarrow> (\<forall>c \<in> set cs. \<not> clause_is_satisfied c a \<longrightarrow>
         (\<forall>l \<in> set c. literal_variable l = var \<longrightarrow> literal_is_positive l))) \<and>
     (\<not> ap' \<longrightarrow> (\<forall>c \<in> set cs. \<not> clause_is_satisfied c a \<longrightarrow>
         (\<forall>l \<in> set c. literal_variable l = var \<longrightarrow> \<not> literal_is_positive l)))"
proof (induction cs arbitrary: ap an)
  case Nil
  then show ?case by simp
next
  case (Cons c cs)
  show ?case
  proof (cases "clause_is_satisfied c a")
    case True
    with Cons.prems have "scan_clauses var cs a ap an = (ap', an')" by simp
    from Cons.IH[OF this] True show ?thesis by simp
  next
    case False
    obtain p1 n1 where sl: "scan_literals var c ap an = (p1, n1)"
      by (cases "scan_literals var c ap an")
    note l = scan_literals_sound[OF sl]
    show ?thesis
    proof (cases "p1 \<and> n1")
      case True
      with False sl Cons.prems have "ap' = p1" "an' = n1" by auto
      with True l show ?thesis by simp
    next
      case nb: False
      with False sl Cons.prems have "scan_clauses var cs a p1 n1 = (ap', an')" by auto
      from Cons.IH[OF this] l show ?thesis by auto
    qed
  qed
qed

lemma not_conflicting_I:
  "l \<in> set c \<Longrightarrow> a (literal_variable l) = VAR_UNASSIGNED \<or> literal_satisfied a l \<Longrightarrow>
     \<not> clause_is_conflicting c a"
  by (auto simp: clause_is_conflicting_iff)

text \<open>Assigning a pure variable keeps every clause non-conflicting.\<close>

lemma pure_assignment_no_conflict:
  assumes un: "a var = VAR_UNASSIGNED" and v0: "var \<noteq> 0"
    and pure: "\<forall>l \<in> set c. \<not> clause_is_satisfied c a \<longrightarrow> literal_variable l = var \<longrightarrow>
                 (literal_is_positive l \<longleftrightarrow> val = VAR_TRUE) \<and> val \<noteq> VAR_UNASSIGNED"
    and nc: "\<not> clause_is_conflicting c a"
  shows "\<not> clause_is_conflicting c (a(var := val))"
proof (cases "clause_is_satisfied c a")
  case True
  then obtain l where l: "l \<in> set c" "literal_satisfied a l"
    by (auto simp: clause_is_satisfied_iff)
  hence "literal_variable l \<noteq> var" using un by (auto simp: literal_satisfied_def Let_def)
  with l have "literal_satisfied (a(var := val)) l" by (simp add: literal_satisfied_def Let_def)
  with l(1) show ?thesis using not_conflicting_I[of l c "a(var := val)"] by blast
next
  case False
  from nc obtain l where l: "l \<in> set c" "a (literal_variable l) = VAR_UNASSIGNED \<or> literal_satisfied a l"
    by (auto simp: clause_is_conflicting_iff)
  with False have lu: "a (literal_variable l) = VAR_UNASSIGNED"
    by (auto simp: clause_is_satisfied_iff)
  show ?thesis
  proof (cases "literal_variable l = var")
    case True
    with pure l(1) False have "(literal_is_positive l \<longleftrightarrow> val = VAR_TRUE)" "val \<noteq> VAR_UNASSIGNED" by auto
    hence "literal_satisfied (a(var := val)) l" using True
      by (cases val) (auto simp: literal_satisfied_def Let_def)
    with l(1) show ?thesis using not_conflicting_I[of l c "a(var := val)"] by blast
  next
    case False
    with lu have "(a(var := val)) (literal_variable l) = VAR_UNASSIGNED" by simp
    with l(1) show ?thesis using not_conflicting_I[of l c "a(var := val)"] by blast
  qed
qed

lemma pure_literal_step_no_conflict:
  assumes "\<not> cnf_has_conflict (formula s)" and "pure_literal_step var (s, ch) = (s', ch')"
    and "1 \<le> var" and "var \<le> num_variables (formula s)"
  shows "\<not> cnf_has_conflict (formula s') \<and> clauses (formula s') = clauses (formula s) \<and>
         num_variables (formula s') = num_variables (formula s)"
proof (cases "IS_VARIABLE_ASSIGNED s var")
  case True
  with assms show ?thesis by (auto simp: pure_literal_step_def)
next
  case False
  let ?a = "assignment (formula s)"
  from False have un: "?a var = VAR_UNASSIGNED" by (simp add: IS_VARIABLE_ASSIGNED_def)
  obtain ap an where sc: "scan_clauses var (clauses (formula s)) ?a False False = (ap, an)"
    by (cases "scan_clauses var (clauses (formula s)) ?a False False")
  note snd = scan_clauses_sound[OF sc]
  have nc: "\<forall>c \<in> set (clauses (formula s)). \<not> clause_is_conflicting c ?a"
    using assms(1) by (simp add: cnf_has_conflict_def cnf_has_conflict_loop_iff)
  have av: "\<And>val. snd (assign_variable s var val False) =
      s\<lparr>formula := (formula s)\<lparr>assignment := ?a(var := val)\<rparr>,
        assignments := assignment_stack_push (assignments s) var val False\<rparr>"
    using assms(3,4) by (simp add: assign_variable_def)
  consider (pos) "ap \<and> \<not> an" | (neg) "an \<and> \<not> ap" | (none) "\<not> (ap \<and> \<not> an) \<and> \<not> (an \<and> \<not> ap)"
    by blast
  then show ?thesis
  proof cases
    case pos
    with False sc assms(2) have s': "s' = (snd (assign_variable s var VAR_TRUE False))\<lparr>formula_modified := True\<rparr>"
      by (auto simp: pure_literal_step_def)
    have "\<forall>c \<in> set (clauses (formula s)). \<not> clause_is_conflicting c (?a(var := VAR_TRUE))"
    proof
      fix c assume c: "c \<in> set (clauses (formula s))"
      show "\<not> clause_is_conflicting c (?a(var := VAR_TRUE))"
        using un assms(3) snd pos c nc
        by (intro pure_assignment_no_conflict) auto
    qed
    thus ?thesis unfolding s' av by (simp add: cnf_has_conflict_def cnf_has_conflict_loop_iff)
  next
    case neg
    with False sc assms(2) have s': "s' = (snd (assign_variable s var VAR_FALSE False))\<lparr>formula_modified := True\<rparr>"
      by (auto simp: pure_literal_step_def)
    have "\<forall>c \<in> set (clauses (formula s)). \<not> clause_is_conflicting c (?a(var := VAR_FALSE))"
    proof
      fix c assume c: "c \<in> set (clauses (formula s))"
      show "\<not> clause_is_conflicting c (?a(var := VAR_FALSE))"
        using un assms(3) snd neg c nc
        by (intro pure_assignment_no_conflict) auto
    qed
    thus ?thesis unfolding s' av by (simp add: cnf_has_conflict_def cnf_has_conflict_loop_iff)
  next
    case none
    with False sc assms(2) have "s' = s" by (auto simp: pure_literal_step_def)
    with assms(1) show ?thesis by simp
  qed
qed

lemma pure_literal_fold_no_conflict:
  "\<not> cnf_has_conflict (formula s) \<Longrightarrow> \<forall>v \<in> set vs. 1 \<le> v \<and> v \<le> num_variables (formula s) \<Longrightarrow>
   fold pure_literal_step vs (s, ch) = (s', ch') \<Longrightarrow>
   \<not> cnf_has_conflict (formula s') \<and> clauses (formula s') = clauses (formula s) \<and>
         num_variables (formula s') = num_variables (formula s)"
proof (induction vs arbitrary: s ch)
  case Nil
  then show ?case by simp
next
  case (Cons v vs)
  obtain s1 ch1 where st: "pure_literal_step v (s, ch) = (s1, ch1)"
    by (cases "pure_literal_step v (s, ch)")
  from Cons.prems(2) have r: "1 \<le> v" "v \<le> num_variables (formula s)" by simp_all
  note one = pure_literal_step_no_conflict[OF Cons.prems(1) st r]
  from Cons.prems(3) st have f: "fold pure_literal_step vs (s1, ch1) = (s', ch')" by simp
  have "\<forall>v \<in> set vs. 1 \<le> v \<and> v \<le> num_variables (formula s1)" using Cons.prems(2) one by simp
  from Cons.IH[OF _ this f] one show ?case by simp
qed

section \<open>Facts about the driver\<close>

lemma assign_variable_clauses:
  "assign_variable s var val d = (b, s') \<Longrightarrow>
     clauses (formula s') = clauses (formula s) \<and> num_variables (formula s') = num_variables (formula s)"
  by (auto simp: assign_variable_def split: if_splits)

lemma backtrack_clauses:
  "backtrack s = (b, s') \<Longrightarrow>
     clauses (formula s') = clauses (formula s) \<and> num_variables (formula s') = num_variables (formula s)"
  by (auto simp: backtrack_def Let_def split: if_splits option.splits prod.splits
           dest!: assign_variable_clauses)

lemma backtrack_or_unsat_clauses:
  "backtrack_or_unsat s = (ro, s') \<Longrightarrow>
     clauses (formula s') = clauses (formula s) \<and> ro \<noteq> Some SOLVER_SATISFIABLE"
  by (auto simp: backtrack_or_unsat_def split: prod.splits bool.splits dest!: backtrack_clauses)

lemma perform_restart_clauses:
  "clauses (formula (perform_restart s)) = clauses (formula s)"
  by (simp add: perform_restart_def unassign_until_level_def Let_def)

lemma unit_propagation_clauses:
  "clauses (formula (snd (unit_propagation s))) = clauses (formula s)"
  using unit_propagation_measure(2)[of s "fst (unit_propagation s)" "snd (unit_propagation s)"]
  by simp

lemma pure_literal_elimination_clauses:
  "clauses (formula (snd (pure_literal_elimination s))) = clauses (formula s)"
  using pure_literal_elimination_measure(2)[of s "fst (pure_literal_elimination s)" "snd (pure_literal_elimination s)"]
  by simp

lemma dpll_iteration_sound:
  assumes "dpll_iteration env i s = (ro, s')"
  shows "clauses (formula s') = clauses (formula s)"
    and "ro = Some SOLVER_SATISFIABLE \<Longrightarrow> is_formula_satisfied s'"
proof -
  define s1 where "s1 = (if enable_unit_propagation (config s) then snd (unit_propagation s) else s)"
  define s2 where "s2 = (if enable_pure_literal (config s1) then snd (pure_literal_elimination s1) else s1)"
  have c1: "clauses (formula s1) = clauses (formula s)"
    by (simp add: s1_def unit_propagation_clauses)
  have c2: "clauses (formula s2) = clauses (formula s)"
    by (simp add: s2_def pure_literal_elimination_clauses c1)
  have both: "clauses (formula s') = clauses (formula s) \<and>
     (ro = Some SOLVER_SATISFIABLE \<longrightarrow> is_formula_satisfied s')"
    using assms c1 c2
    unfolding dpll_iteration_def s1_def[symmetric] Let_def s2_def[symmetric]
    by (auto split: if_splits prod.splits bool.splits
             dest!: backtrack_or_unsat_clauses assign_variable_clauses
             simp: perform_restart_clauses)
  from both show "clauses (formula s') = clauses (formula s)" by simp
  from both show "ro = Some SOLVER_SATISFIABLE \<Longrightarrow> is_formula_satisfied s'" by simp
qed

lemma dpll_loop_sound:
  "dpll_loop env i s = (r, s') \<Longrightarrow>
     clauses (formula s') = clauses (formula s) \<and>
     (r = SOLVER_SATISFIABLE \<longrightarrow> is_formula_satisfied s')"
proof (induction env i s rule: dpll_loop.induct)
  case (1 env iterations solver)
  show ?case
  proof (cases "iterations < max_iterations")
    case False
    with "1.prems" show ?thesis by (simp add: dpll_loop.simps[of env iterations solver])
  next
    case True
    obtain ro s1 where it: "dpll_iteration env (iterations + 1) solver = (ro, s1)"
      by (cases "dpll_iteration env (iterations + 1) solver")
    note d = dpll_iteration_sound[OF it]
    show ?thesis
    proof (cases ro)
      case None
      with True it "1.prems" have rec: "dpll_loop env (iterations + 1) s1 = (r, s')"
        by (simp add: dpll_loop.simps[of env iterations solver])
      from "1.IH"[OF True it[symmetric] None rec] d(1) show ?thesis by simp
    next
      case (Some r')
      with True it "1.prems" have "r = r'" "s' = s1"
        by (simp_all add: dpll_loop.simps[of env iterations solver])
      with d Some show ?thesis by simp
    qed
  qed
qed

lemma preprocess_formula_clauses:
  "preprocess_formula s = (b, s') \<Longrightarrow> clauses (formula s') = clauses (formula s) \<and> b"
proof (induction s rule: preprocess_formula.induct)
  case (1 solver)
  obtain pc s1 where p: "eliminate_pure_literals_preprocessing solver = (pc, s1)"
    by (cases "eliminate_pure_literals_preprocessing solver")
  obtain r s2 where u: "unit_propagation s1 = (r, s2)"
    by (cases "unit_propagation s1")
  from p have c1: "clauses (formula s1) = clauses (formula solver)"
    using pure_literal_elimination_clauses[of solver]
    by (simp add: eliminate_pure_literals_preprocessing_def)
  from u have c2: "clauses (formula s2) = clauses (formula s1)"
    using unit_propagation_clauses[of s1] by simp
  show ?case
  proof (cases "\<not> has_conflict s2 \<and> (pc \<or> length (stack (assignments s2)) \<noteq> length (stack (assignments solver)))")
    case True
    with p u "1.prems" have rec: "preprocess_formula s2 = (b, s')"
      by (simp add: preprocess_formula.simps[of solver] Let_def)
    from "1.IH"[OF refl p[symmetric] u[symmetric] refl _ _ rec] True c1 c2 show ?thesis by auto
  next
    case False
    with p u "1.prems" have "s' = s2" "b"
      by (auto simp: preprocess_formula.simps[of solver] Let_def split: if_splits)
    with c1 c2 show ?thesis by simp
  qed
qed

lemma complete_assignment_literal:
  "literal_satisfied a l \<Longrightarrow> literal_satisfied (complete_assignment a) l"
  by (auto simp: literal_satisfied_def complete_assignment_def Let_def)

lemma complete_assignment_satisfied:
  "clause_is_satisfied c a \<Longrightarrow> clause_is_satisfied c (complete_assignment a)"
  unfolding clause_is_satisfied_iff by (blast intro: complete_assignment_literal)

lemma complete_assignment_total: "complete_assignment a v \<noteq> VAR_UNASSIGNED"
  by (simp add: complete_assignment_def)

lemma print_class_model_line_bits:
  "(v, b) \<in> set (print_class_model_line f) \<Longrightarrow>
     (b = 1 \<longleftrightarrow> complete_assignment (assignment f) v = VAR_TRUE) \<and>
     (b = 0 \<longleftrightarrow> complete_assignment (assignment f) v = VAR_FALSE)"
  by (cases "assignment f v") (auto simp: print_class_model_line_def complete_assignment_def)

lemma satisfied_complete:
  assumes "is_formula_satisfied s'" and "clauses (formula s') = clauses (formula s)"
  shows "\<forall>c \<in> set (clauses (formula s)).
           clause_is_satisfied c (complete_assignment (assignment (formula s')))"
  using assms
  by (auto simp: is_formula_satisfied_def cnf_is_satisfied_def cnf_is_satisfied_loop_iff
           intro: complete_assignment_satisfied)

section \<open>Facts about backtracking\<close>

lemma find_last_decision_Some:
  "find_last_decision st n = Some i \<Longrightarrow>
     i < n \<and> is_decision (st ! i) \<and> (\<forall>j. i < j \<and> j < n \<longrightarrow> \<not> is_decision (st ! j))"
proof (induction n)
  case 0
  then show ?case by simp
next
  case (Suc n)
  show ?case
  proof (cases "is_decision (st ! n)")
    case True
    with Suc.prems have "i = n" by simp
    with True show ?thesis by auto
  next
    case False
    with Suc.prems have "find_last_decision st n = Some i" by simp
    from Suc.IH[OF this] False show ?thesis
      by (auto simp: less_Suc_eq)
  qed
qed

lemma find_last_decision_None:
  "find_last_decision st n = None \<Longrightarrow> \<forall>j < n. \<not> is_decision (st ! j)"
  by (induction n) (auto simp: less_Suc_eq split: if_splits)

lemma backtrack_unstack_eq:
  "idx < length st \<Longrightarrow>
     backtrack_unstack st idx a =
       (take (Suc idx) st,
        (\<lambda>v. if v \<in> variable ` set (drop (Suc idx) st) then VAR_UNASSIGNED else a v))"
proof (induction st idx a rule: backtrack_unstack.induct)
  case (1 st idx a)
  show ?case
  proof (cases "length st > idx + 1")
    case False
    with "1.prems" have "length st = Suc idx" by simp
    then show ?thesis by (simp add: backtrack_unstack.simps[of st idx a])
  next
    case True
    hence ne: "st \<noteq> []" by auto
    from True have lt: "idx < length (butlast st)" by simp
    have st: "st = butlast st @ [last st]" using ne by simp
    have tk: "take (Suc idx) (butlast st) = take (Suc idx) st"
      using True by (simp add: take_butlast)
    have dr: "variable ` set (drop (Suc idx) st) =
              insert (variable (last st)) (variable ` set (drop (Suc idx) (butlast st)))"
    proof -
      have "drop (Suc idx) st = drop (Suc idx) (butlast st) @ [last st]"
        using True by (subst st) (simp del: append_butlast_last_id)
      then show ?thesis by auto
    qed
    have "backtrack_unstack st idx a =
          backtrack_unstack (butlast st) idx (a(variable (last st) := VAR_UNASSIGNED))"
      using True by (simp add: backtrack_unstack.simps[of st idx a])
    also have "\<dots> = (take (Suc idx) (butlast st),
        (\<lambda>v. if v \<in> variable ` set (drop (Suc idx) (butlast st)) then VAR_UNASSIGNED
             else (a(variable (last st) := VAR_UNASSIGNED)) v))"
      by (rule "1.IH"[OF True lt])
    also have "\<dots> = (take (Suc idx) st,
        (\<lambda>v. if v \<in> variable ` set (drop (Suc idx) st) then VAR_UNASSIGNED else a v))"
      unfolding tk dr by (auto simp: fun_eq_iff)
    finally show ?thesis .
  qed
qed

lemma backtrack_success:
  assumes "backtrack s = (True, s')"
  defines "st \<equiv> stack (assignments s)"
  defines "a \<equiv> assignment (formula s)"
  shows "\<exists>i. find_last_decision st (length st) = Some i \<and>
           stack (assignments s') = take i st @
             [\<lparr>variable = variable (st ! i),
               entry_value = (if entry_value (st ! i) = VAR_TRUE then VAR_FALSE else VAR_TRUE),
               entry_level = decision_level (assignments s) + 1, is_decision = True\<rparr>] \<and>
           decision_level (assignments s') = decision_level (assignments s) + 1 \<and>
           assignment (formula s') =
             (\<lambda>v. if v = variable (st ! i)
                  then (if entry_value (st ! i) = VAR_TRUE then VAR_FALSE else VAR_TRUE)
                  else if v \<in> variable ` set (drop (Suc i) st) then VAR_UNASSIGNED else a v) \<and>
           num_variables (formula s') = num_variables (formula s) \<and>
           variable (st ! i) \<noteq> 0 \<and> variable (st ! i) \<le> num_variables (formula s)"
proof -
  from assms(1) have ne: "length st \<noteq> 0"
    by (auto simp: backtrack_def st_def Let_def)
  from assms(1) ne obtain i where fl: "find_last_decision st (length st) = Some i"
    by (cases "find_last_decision st (length st)") (auto simp: backtrack_def st_def Let_def)
  from find_last_decision_Some[OF fl] have lt: "i < length st" by simp
  note un = backtrack_unstack_eq[OF lt, of a]
  have l1: "min (length st) (Suc i) = Suc i" using lt by simp
  have b1: "butlast (take (Suc i) st) = take i st" using lt by (simp add: butlast_take)
  from assms(1) ne fl un show ?thesis
    unfolding backtrack_def st_def[symmetric] a_def[symmetric] Let_def
    by (auto simp: l1 b1 assign_variable_def assignment_stack_push_def Let_def fun_eq_iff
             split: if_splits)
qed

lemma backtrack_agrees:
  assumes fl: "find_last_decision st (length st) = Some i"
    and st: "st = stack (assignments s)"
    and st': "stack (assignments s') = take i st @ [ent]"
    and ent: "variable ent = variable (st ! i)" "entry_value ent = val"
    and a': "assignment (formula s') =
             (\<lambda>v. if v = variable (st ! i) then val
                  else if v \<in> variable ` set (drop (Suc i) st) then VAR_UNASSIGNED
                  else assignment (formula s) v)"
    and n: "num_variables (formula s') = num_variables (formula s)"
    and ag: "stack_agrees s"
  shows "stack_agrees s'"
proof -
  from find_last_decision_Some[OF fl] have lt: "i < length st" by simp
  have split: "st = take i st @ (st ! i) # drop (Suc i) st"
    using lt by (simp add: id_take_nth_drop[symmetric])
  from ag have dist: "distinct (map variable st)"
    and val: "\<forall>e \<in> set st. assignment (formula s) (variable e) = entry_value e"
    and dom: "\<forall>v \<in> set [1 .. num_variables (formula s)].
         assignment (formula s) v \<noteq> VAR_UNASSIGNED \<longrightarrow> v \<in> variable ` set st"
    by (simp_all add: stack_agrees_def st)
  have dist': "distinct (map variable (take i st) @ variable (st ! i) # map variable (drop (Suc i) st))"
    using dist by (subst (asm) split) simp
  hence d1: "distinct (map variable (take i st))"
    and d2: "variable (st ! i) \<notin> variable ` set (take i st)"
    and d3: "variable ` set (take i st) \<inter> variable ` set (drop (Suc i) st) = {}"
    by auto
  have sets: "variable ` set st = variable ` set (take i st) \<union> {variable (st ! i)} \<union>
                variable ` set (drop (Suc i) st)"
    by (subst split) auto
  have A: "distinct (map variable (stack (assignments s')))"
    using d1 d2 by (simp add: st' ent)
  have B: "\<forall>e \<in> set (stack (assignments s')). assignment (formula s') (variable e) = entry_value e"
  proof
    fix e assume "e \<in> set (stack (assignments s'))"
    hence "e = ent \<or> e \<in> set (take i st)" by (auto simp: st')
    thus "assignment (formula s') (variable e) = entry_value e"
    proof
      assume "e = ent" thus ?thesis by (simp add: a' ent)
    next
      assume e: "e \<in> set (take i st)"
      hence "e \<in> set st" by (rule in_set_takeD)
      with val have v: "assignment (formula s) (variable e) = entry_value e" by simp
      from e have ve: "variable e \<in> variable ` set (take i st)" by (rule imageI)
      from ve d2 have "variable e \<noteq> variable (st ! i)" by metis
      moreover from ve d3 have "variable e \<notin> variable ` set (drop (Suc i) st)" by blast
      ultimately show ?thesis using v by (simp add: a')
    qed
  qed
  have C: "\<forall>v \<in> set [1 .. num_variables (formula s')].
         assignment (formula s') v \<noteq> VAR_UNASSIGNED \<longrightarrow> v \<in> variable ` set (stack (assignments s'))"
  proof (intro ballI impI)
    fix v assume v: "v \<in> set [1 .. num_variables (formula s')]"
      and na: "assignment (formula s') v \<noteq> VAR_UNASSIGNED"
    show "v \<in> variable ` set (stack (assignments s'))"
    proof (cases "v = variable (st ! i)")
      case True
      then show ?thesis by (simp add: st' ent)
    next
      case False
      with na have nd: "v \<notin> variable ` set (drop (Suc i) st)"
        and "assignment (formula s) v \<noteq> VAR_UNASSIGNED"
        by (auto simp: a' split: if_splits)
      with dom v n have "v \<in> variable ` set st" by simp
      with sets False nd have "v \<in> variable ` set (take i st)" by auto
      then show ?thesis by (auto simp: st')
    qed
  qed
  from A B C show ?thesis by (simp add: stack_agrees_def)
qed

lemma level_matches_create: "level_matches_decisions assignment_stack_create"
  by (simp add: level_matches_decisions_def assignment_stack_create_def)

lemma level_matches_push:
  "level_matches_decisions st \<Longrightarrow> level_matches_decisions (assignment_stack_push st var val d)"
  by (simp add: level_matches_decisions_def assignment_stack_push_def Let_def)

lemma level_matches_pop:
  assumes "level_matches_decisions st" and "assignment_stack_pop st = Some (e, st')"
  shows "level_matches_decisions st' \<and>
         decision_level st' = (if is_decision e then decision_level st - 1 else decision_level st)"
proof -
  from assms(2) have ne: "stack st \<noteq> []" and e: "e = last (stack st)"
    and st': "stack st' = butlast (stack st)"
    and dl: "decision_level st' =
       (if is_decision e \<and> decision_level st > 0 then decision_level st - 1 else decision_level st)"
    by (auto simp: assignment_stack_pop_def Let_def split: if_splits)
  have "filter is_decision (stack st) = filter is_decision (butlast (stack st) @ [last (stack st)])"
    using ne by simp
  hence cnt: "length (filter is_decision (stack st)) =
              length (filter is_decision (butlast (stack st))) + (if is_decision e then 1 else 0)"
    by (simp add: e)
  from assms(1) cnt dl st' show ?thesis
    by (auto simp: level_matches_decisions_def)
qed

lemma level_matches_clear: "level_matches_decisions (assignment_stack_clear st)"
  by (simp add: level_matches_decisions_def assignment_stack_clear_def)

lemma level_matches_assign_variable:
  "level_matches_decisions (assignments s) \<Longrightarrow>
     level_matches_decisions (assignments (snd (assign_variable s var val d)))"
  by (simp add: assign_variable_def level_matches_push)

lemma unit_propagation_pass_level:
  "unit_propagation_pass cs s p = (r, s', p') \<Longrightarrow>
     decision_level (assignments s') = decision_level (assignments s) \<and>
     filter is_decision (stack (assignments s')) = filter is_decision (stack (assignments s))"
proof (induction cs arbitrary: s p)
  case Nil
  then show ?case by auto
next
  case (Cons c cs)
  let ?a = "assignment (formula s)"
  show ?case
  proof (cases "clause_is_unit c ?a")
    case None
    with Cons.prems have "unit_propagation_pass cs s p = (r, s', p')"
      by (simp split: if_splits)
    from Cons.IH[OF this] show ?thesis .
  next
    case (Some ul)
    hence na: "\<not> IS_VARIABLE_ASSIGNED s (literal_variable ul)"
      and ns: "\<not> clause_is_satisfied c ?a"
      using clause_is_unit_Some[OF Some] by (simp_all add: IS_VARIABLE_ASSIGNED_def)
    show ?thesis
      using Cons.prems Some na ns
      by (auto simp: Let_def assign_variable_def assignment_stack_push_def
               split: if_splits dest!: Cons.IH)
  qed
qed

lemma unit_propagation_loop_level:
  "unit_propagation_loop s k = (r, s', n) \<Longrightarrow>
     decision_level (assignments s') = decision_level (assignments s) \<and>
     filter is_decision (stack (assignments s')) = filter is_decision (stack (assignments s))"
proof (induction s k rule: unit_propagation_loop.induct)
  case (1 solver passes)
  obtain ro s1 p where pass: "unit_propagation_pass (clauses (formula solver)) solver False = (ro, s1, p)"
    by (cases "unit_propagation_pass (clauses (formula solver)) solver False")
  note c = unit_propagation_pass_level[OF pass]
  show ?case
  proof (cases "ro = None \<and> p")
    case True
    with pass "1.prems" have rec: "unit_propagation_loop s1 (passes + 1) = (r, s', n)"
      by (simp add: unit_propagation_loop.simps[of solver])
    from "1.IH"[OF pass[symmetric] _ refl _ rec] True c show ?thesis by simp
  next
    case False
    with pass "1.prems" have "s' = s1"
      by (auto simp: unit_propagation_loop.simps[of solver] split: option.splits if_splits)
    with c show ?thesis by simp
  qed
qed

lemma level_matches_unit_propagation:
  "level_matches_decisions (assignments s) \<Longrightarrow>
     level_matches_decisions (assignments (snd (unit_propagation s)))"
proof -
  assume a: "level_matches_decisions (assignments s)"
  obtain r s' n where l: "unit_propagation_loop s 0 = (r, s', n)"
    by (cases "unit_propagation_loop s 0")
  from unit_propagation_loop_level[OF l] a l show ?thesis
    by (simp add: unit_propagation_def level_matches_decisions_def)
qed

lemma pure_literal_step_level:
  "level_matches_decisions (assignments s) \<Longrightarrow> pure_literal_step var (s, ch) = (s', ch') \<Longrightarrow>
     level_matches_decisions (assignments s')"
  by (auto simp: pure_literal_step_def assign_variable_def level_matches_push
           split: if_splits prod.splits)

lemma pure_literal_fold_level:
  "level_matches_decisions (assignments s) \<Longrightarrow> fold pure_literal_step vs (s, ch) = (s', ch') \<Longrightarrow>
     level_matches_decisions (assignments s')"
proof (induction vs arbitrary: s ch)
  case Nil
  then show ?case by simp
next
  case (Cons v vs)
  obtain s1 ch1 where st: "pure_literal_step v (s, ch) = (s1, ch1)"
    by (cases "pure_literal_step v (s, ch)")
  from Cons.prems(2) st have f: "fold pure_literal_step vs (s1, ch1) = (s', ch')" by simp
  from Cons.IH[OF pure_literal_step_level[OF Cons.prems(1) st] f] show ?case .
qed

lemma level_matches_pure_literal_elimination:
  "level_matches_decisions (assignments s) \<Longrightarrow>
     level_matches_decisions (assignments (snd (pure_literal_elimination s)))"
proof -
  assume a: "level_matches_decisions (assignments s)"
  obtain s' ch where f: "fold pure_literal_step [1 .. num_variables (formula s)] (s, False) = (s', ch)"
    by (cases "fold pure_literal_step [1 .. num_variables (formula s)] (s, False)")
  from pure_literal_fold_level[OF a f] f show ?thesis
    by (simp add: pure_literal_elimination_def)
qed

lemma backtrack_level:
  assumes "backtrack s = (True, s')" and "level_matches_decisions (assignments s)"
  shows "decision_level (assignments s') =
           length (filter is_decision (stack (assignments s'))) + 1"
proof -
  let ?st = "stack (assignments s)"
  from backtrack_success[OF assms(1)] obtain i where
    fl: "find_last_decision ?st (length ?st) = Some i"
    and st': "stack (assignments s') = take i ?st @
             [\<lparr>variable = variable (?st ! i),
               entry_value = (if entry_value (?st ! i) = VAR_TRUE then VAR_FALSE else VAR_TRUE),
               entry_level = decision_level (assignments s) + 1, is_decision = True\<rparr>]"
    and dl: "decision_level (assignments s') = decision_level (assignments s) + 1"
    by blast
  note f = find_last_decision_Some[OF fl]
  have split: "?st = take i ?st @ (?st ! i) # drop (Suc i) ?st"
    using f by (simp add: id_take_nth_drop[symmetric])
  have none: "filter is_decision (drop (Suc i) ?st) = []"
  proof -
    have "\<forall>e \<in> set (drop (Suc i) ?st). \<not> is_decision e"
    proof
      fix e assume "e \<in> set (drop (Suc i) ?st)"
      then obtain k where k: "k < length (drop (Suc i) ?st)" "e = drop (Suc i) ?st ! k"
        by (auto simp: in_set_conv_nth)
      hence "e = ?st ! (Suc i + k)" "Suc i + k < length ?st" by auto
      with f show "\<not> is_decision e" by simp
    qed
    thus ?thesis by (simp add: filter_empty_conv)
  qed
  have "length (filter is_decision ?st) =
        length (filter is_decision (take i ?st @ (?st ! i) # drop (Suc i) ?st))"
    using split by simp
  also have "\<dots> = length (filter is_decision (take i ?st)) + 1"
    using f none by simp
  finally have "length (filter is_decision ?st) = length (filter is_decision (stack (assignments s')))"
    by (simp add: st')
  with dl assms(2) show ?thesis by (simp add: level_matches_decisions_def)
qed

section \<open>Facts about the most-frequent heuristic\<close>

lemma decision_most_frequent_loop_result:
  fixes s :: dpll_solver
  assumes "sorted vars"
  shows "((\<forall>v \<in> set vars. \<not> IS_VARIABLE_ASSIGNED s v \<longrightarrow> total_frequency s v \<le> maxf) \<longrightarrow>
            decision_most_frequent_loop vars s best maxf = best) \<and>
         ((\<exists>v \<in> set vars. \<not> IS_VARIABLE_ASSIGNED s v \<and> maxf < total_frequency s v) \<longrightarrow>
            decision_most_frequent_loop vars s best maxf \<in> set vars \<and>
            \<not> IS_VARIABLE_ASSIGNED s (decision_most_frequent_loop vars s best maxf) \<and>
            maxf < total_frequency s (decision_most_frequent_loop vars s best maxf) \<and>
            (\<forall>v \<in> set vars. \<not> IS_VARIABLE_ASSIGNED s v \<longrightarrow>
               total_frequency s v \<le> total_frequency s (decision_most_frequent_loop vars s best maxf)) \<and>
            (\<forall>v \<in> set vars. \<not> IS_VARIABLE_ASSIGNED s v \<and>
               total_frequency s v = total_frequency s (decision_most_frequent_loop vars s best maxf)
                 \<longrightarrow> decision_most_frequent_loop vars s best maxf \<le> v))"
  using assms(1)
proof (induction vars arbitrary: best maxf)
  case Nil
  then show ?case by simp
next
  case (Cons x xs)
  from Cons.prems have sx: "sorted xs" and le: "\<forall>y \<in> set xs. x \<le> y" by simp_all
  show ?case
  proof (cases "IS_VARIABLE_ASSIGNED s x")
    case True
    hence step: "decision_most_frequent_loop (x # xs) s best maxf =
                 decision_most_frequent_loop xs s best maxf" by simp
    from Cons.IH[OF sx, where best = best and maxf = maxf] True
    show ?thesis unfolding step by auto
  next
    case un: False
    show ?thesis
    proof (cases "total_frequency s x > maxf")
      case True
      define r where "r = decision_most_frequent_loop xs s x (total_frequency s x)"
      have step: "decision_most_frequent_loop (x # xs) s best maxf = r"
        using un True by (simp add: Let_def total_frequency_def r_def)
      note ih = Cons.IH[OF sx, where best = x and maxf = "total_frequency s x", folded r_def]
      show ?thesis
      proof (cases "\<forall>v \<in> set xs. \<not> IS_VARIABLE_ASSIGNED s v \<longrightarrow>
                      total_frequency s v \<le> total_frequency s x")
        case all: True
        with ih have "r = x" by simp
        with True un all le show ?thesis unfolding step by auto
      next
        case ex: False
        hence "\<exists>v \<in> set xs. \<not> IS_VARIABLE_ASSIGNED s v \<and> total_frequency s x < total_frequency s v"
          by (auto simp: not_le)
        with ih have
          r: "r \<in> set xs" "\<not> IS_VARIABLE_ASSIGNED s r"
          and g: "total_frequency s x < total_frequency s r"
          and m: "\<forall>v \<in> set xs. \<not> IS_VARIABLE_ASSIGNED s v \<longrightarrow> total_frequency s v \<le> total_frequency s r"
          and f: "\<forall>v \<in> set xs. \<not> IS_VARIABLE_ASSIGNED s v \<and> total_frequency s v = total_frequency s r
                    \<longrightarrow> r \<le> v"
          by blast+
        from True un r g m f show ?thesis unfolding step by auto
      qed
    next
      case False
      define r where "r = decision_most_frequent_loop xs s best maxf"
      have step: "decision_most_frequent_loop (x # xs) s best maxf = r"
        using un False by (simp add: Let_def total_frequency_def r_def)
      note ih = Cons.IH[OF sx, where best = best and maxf = maxf, folded r_def]
      show ?thesis
      proof (cases "\<forall>v \<in> set xs. \<not> IS_VARIABLE_ASSIGNED s v \<longrightarrow> total_frequency s v \<le> maxf")
        case all: True
        with ih have "r = best" by simp
        with False un all show ?thesis unfolding step by auto
      next
        case ex: False
        hence "\<exists>v \<in> set xs. \<not> IS_VARIABLE_ASSIGNED s v \<and> maxf < total_frequency s v"
          by (auto simp: not_le)
        with ih have
          r: "r \<in> set xs" "\<not> IS_VARIABLE_ASSIGNED s r"
          and g: "maxf < total_frequency s r"
          and m: "\<forall>v \<in> set xs. \<not> IS_VARIABLE_ASSIGNED s v \<longrightarrow> total_frequency s v \<le> total_frequency s r"
          and f: "\<forall>v \<in> set xs. \<not> IS_VARIABLE_ASSIGNED s v \<and> total_frequency s v = total_frequency s r
                    \<longrightarrow> r \<le> v"
          by blast+
        from False un ex r g m f show ?thesis unfolding step by auto
      qed
    qed
  qed
qed

lemma decision_most_frequent_result:
  "((\<forall>v \<in> unassigned s. total_frequency s v = 0) \<longrightarrow> decision_most_frequent s = 0) \<and>
   ((\<exists>v \<in> unassigned s. 0 < total_frequency s v) \<longrightarrow>
      decision_most_frequent s \<in> unassigned s \<and>
      (\<forall>v \<in> unassigned s. total_frequency s v \<le> total_frequency s (decision_most_frequent s)) \<and>
      (\<forall>v \<in> unassigned s. total_frequency s v = total_frequency s (decision_most_frequent s)
           \<longrightarrow> decision_most_frequent s \<le> v))"
proof -
  have srt: "sorted [1 .. num_variables (formula s)]" by simp
  from decision_most_frequent_loop_result[OF srt, where s = s and best = 0 and maxf = 0]
  show ?thesis unfolding decision_most_frequent_def unassigned_def by auto
qed

section \<open>Facts about the reader\<close>





lemma parser_parse_stream_line_empty:
  "is_empty_line (trim_string (takeWhile (\<lambda>ch. ch \<noteq> CHR 0x0A) line)) \<Longrightarrow>
     parser_parse_stream_line parser line =
       Some (None, parser\<lparr>line_number := line_number parser + 1\<rparr>)"
  by (simp add: parser_parse_stream_line_def Let_def)

section \<open>The claims\<close>

text \<open>
  Claim C1 (soundness). If \<^verbatim>\<open>dpll_algorithm\<close> or \<^verbatim>\<open>solver_solve\<close> returns
  \<^verbatim>\<open>SOLVER_SATISFIABLE\<close>, the clauses of the formula are those it was given and every one
  of them is satisfied under the assignment left in the formula once each unassigned
  variable is completed to false (the assignment \<^verbatim>\<open>print_class_model_line\<close> prints).
\<close>

theorem solver_soundness:
  "(dpll_algorithm env s = (SOLVER_SATISFIABLE, s') \<longrightarrow>
      clauses (formula s') = clauses (formula s) \<and>
      (\<forall>c \<in> set (clauses (formula s)).
         clause_is_satisfied c (complete_assignment (assignment (formula s'))))) \<and>
   (solver_solve env s = (SOLVER_SATISFIABLE, s') \<longrightarrow>
      clauses (formula s') = clauses (formula s) \<and>
      (\<forall>c \<in> set (clauses (formula s)).
         clause_is_satisfied c (complete_assignment (assignment (formula s')))))"
proof -
  have dpll: "\<And>t t'. dpll_algorithm env t = (SOLVER_SATISFIABLE, t') \<Longrightarrow>
      clauses (formula t') = clauses (formula t) \<and>
      (\<forall>c \<in> set (clauses (formula t)).
         clause_is_satisfied c (complete_assignment (assignment (formula t'))))"
  proof -
    fix t t' assume "dpll_algorithm env t = (SOLVER_SATISFIABLE, t')"
    hence "dpll_loop env 0 t = (SOLVER_SATISFIABLE, t')" by (simp add: dpll_algorithm_def)
    from dpll_loop_sound[OF this]
    show "clauses (formula t') = clauses (formula t) \<and>
      (\<forall>c \<in> set (clauses (formula t)).
         clause_is_satisfied c (complete_assignment (assignment (formula t'))))"
      using satisfied_complete[of t' t] by simp
  qed
  have solve: "solver_solve env s = (SOLVER_SATISFIABLE, s') \<Longrightarrow>
      clauses (formula s') = clauses (formula s) \<and>
      (\<forall>c \<in> set (clauses (formula s)).
         clause_is_satisfied c (complete_assignment (assignment (formula s'))))"
  proof -
    assume a: "solver_solve env s = (SOLVER_SATISFIABLE, s')"
    show ?thesis
    proof (cases "enable_preprocessing (config s)")
      case False
      with a show ?thesis
        using dpll[of "s\<lparr>config := (config s)
                \<lparr>max_decisions := (if max_decisions (config s) = 0 then 1000
                                    else max_decisions (config s))\<rparr>\<rparr>" s']
        by (simp add: solver_solve_def)
    next
      case True
      obtain b s1 where p: "preprocess_formula s = (b, s1)" by (cases "preprocess_formula s")
      note pc = preprocess_formula_clauses[OF p]
      show ?thesis
      proof (cases "length (clauses (formula s1)) = 0")
        case e: True
        with a True p pc have "s' = s1" by (simp add: solver_solve_def)
        with e pc show ?thesis by simp
      next
        case ne: False
        with a True p pc have
          "dpll_algorithm env (s1\<lparr>config := (config s1)
                       \<lparr>max_decisions := (if max_decisions (config s1) = 0 then 1000
                                           else max_decisions (config s1))\<rparr>\<rparr>) = (SOLVER_SATISFIABLE, s')"
          by (auto simp: solver_solve_def split: if_splits)
        from dpll[OF this] pc show ?thesis by simp
      qed
    qed
  qed
  from dpll[of s s'] solve show ?thesis by blast
qed

theorem solver_soundness_witness:
  "fst (dpll_algorithm quiet_environment example_three) = SOLVER_SATISFIABLE \<and>
   list_all (\<lambda>c. clause_is_satisfied c (complete_assignment
       (assignment (formula (snd (dpll_algorithm quiet_environment example_three))))))
     (clauses (formula example_three)) \<and>
   fst (solver_solve quiet_environment example_three) = SOLVER_SATISFIABLE \<and>
   list_all (\<lambda>c. clause_is_satisfied c (complete_assignment
       (assignment (formula (snd (solver_solve quiet_environment example_three))))))
     (clauses (formula example_three))"
proof -
  have d: "fst (dpll_algorithm quiet_environment example_three) = SOLVER_SATISFIABLE"
    by code_simp
  have v: "fst (solver_solve quiet_environment example_three) = SOLVER_SATISFIABLE"
    by code_simp
  from d have d': "dpll_algorithm quiet_environment example_three =
      (SOLVER_SATISFIABLE, snd (dpll_algorithm quiet_environment example_three))"
    by (metis prod.collapse)
  from v have v': "solver_solve quiet_environment example_three =
      (SOLVER_SATISFIABLE, snd (solver_solve quiet_environment example_three))"
    by (metis prod.collapse)
  from solver_soundness[of quiet_environment example_three
         "snd (dpll_algorithm quiet_environment example_three)"]
       solver_soundness[of quiet_environment example_three
         "snd (solver_solve quiet_environment example_three)"] d d' v v'
  show ?thesis by (simp add: list_all_iff)
qed

text \<open>
  Claim C2. In a solver state whose stack holds a decision entry, when \<^verbatim>\<open>backtrack\<close>
  returns true: with \<open>i\<close> the index of the most recent decision entry, the variable of
  that entry is assigned the opposite of the entry's value; the new stack is the old one
  below \<open>i\<close> with one entry on top, which is for that variable, holds the new value and is
  a decision; the variable of every entry that stood above \<open>i\<close> (other than the decision's
  own variable) is unassigned; no other variable changes; and if the assignment agreed
  with the stack before, it agrees with the stack after.
\<close>

theorem backtrack_postcondition:
  assumes "\<exists>e \<in> set (stack (assignments s)). is_decision e"
    and "backtrack s = (True, s')"
  shows "\<exists>i < length (stack (assignments s)).
      is_decision (stack (assignments s) ! i) \<and>
      (\<forall>j. i < j \<and> j < length (stack (assignments s)) \<longrightarrow>
           \<not> is_decision (stack (assignments s) ! j)) \<and>
      assignment (formula s') (variable (stack (assignments s) ! i)) =
        (if entry_value (stack (assignments s) ! i) = VAR_TRUE then VAR_FALSE else VAR_TRUE) \<and>
      stack (assignments s') = take i (stack (assignments s)) @ [last (stack (assignments s'))] \<and>
      variable (last (stack (assignments s'))) = variable (stack (assignments s) ! i) \<and>
      entry_value (last (stack (assignments s'))) =
        assignment (formula s') (variable (stack (assignments s) ! i)) \<and>
      is_decision (last (stack (assignments s'))) \<and>
      (\<forall>e \<in> set (drop (Suc i) (stack (assignments s))).
         variable e \<noteq> variable (stack (assignments s) ! i) \<longrightarrow>
           assignment (formula s') (variable e) = VAR_UNASSIGNED) \<and>
      (\<forall>v. v \<notin> variable ` set (drop i (stack (assignments s))) \<longrightarrow>
           assignment (formula s') v = assignment (formula s) v) \<and>
      (stack_agrees s \<longrightarrow> stack_agrees s')"
proof -
  let ?st = "stack (assignments s)"
  from backtrack_success[OF assms(2)] obtain i where
    fl: "find_last_decision ?st (length ?st) = Some i"
    and st': "stack (assignments s') = take i ?st @
             [\<lparr>variable = variable (?st ! i),
               entry_value = (if entry_value (?st ! i) = VAR_TRUE then VAR_FALSE else VAR_TRUE),
               entry_level = decision_level (assignments s) + 1, is_decision = True\<rparr>]"
    and a': "assignment (formula s') =
             (\<lambda>v. if v = variable (?st ! i)
                  then (if entry_value (?st ! i) = VAR_TRUE then VAR_FALSE else VAR_TRUE)
                  else if v \<in> variable ` set (drop (Suc i) ?st) then VAR_UNASSIGNED
                  else assignment (formula s) v)"
    and n: "num_variables (formula s') = num_variables (formula s)"
    by blast
  note f = find_last_decision_Some[OF fl]
  have dr: "drop i ?st = (?st ! i) # drop (Suc i) ?st"
    using f by (simp add: Cons_nth_drop_Suc)
  have ag: "stack_agrees s \<longrightarrow> stack_agrees s'"
    using backtrack_agrees[OF fl refl st' _ _ a' n] by simp
  have other: "\<forall>v. v \<notin> variable ` set (drop i ?st) \<longrightarrow>
           assignment (formula s') v = assignment (formula s) v"
    unfolding dr by (simp add: a')
  show ?thesis
    apply (rule exI[of _ i])
    using f ag other by (simp add: st' a')
qed

theorem backtrack_postcondition_witness:
  "list_ex is_decision (stack (assignments example_backtrack)) \<and>
   fst (backtrack example_backtrack) \<and>
   stack_agrees example_backtrack \<and>
   stack_agrees (snd (backtrack example_backtrack)) \<and>
   stack (assignments (snd (backtrack example_backtrack))) =
     [\<lparr>variable = 1, entry_value = VAR_FALSE, entry_level = 2, is_decision = True\<rparr>] \<and>
   assignment (formula (snd (backtrack example_backtrack))) 1 = VAR_FALSE \<and>
   assignment (formula (snd (backtrack example_backtrack))) 3 = VAR_UNASSIGNED"
proof -
  have h1: "\<exists>e \<in> set (stack (assignments example_backtrack)). is_decision e" by code_simp
  have ok: "fst (backtrack example_backtrack)" by code_simp
  hence h2: "backtrack example_backtrack = (True, snd (backtrack example_backtrack))"
    by (metis (full_types) prod.collapse)
  have h3: "stack_agrees example_backtrack" by code_simp
  have e: "stack (assignments (snd (backtrack example_backtrack))) =
     [\<lparr>variable = 1, entry_value = VAR_FALSE, entry_level = 2, is_decision = True\<rparr>] \<and>
   assignment (formula (snd (backtrack example_backtrack))) 1 = VAR_FALSE \<and>
   assignment (formula (snd (backtrack example_backtrack))) 3 = VAR_UNASSIGNED" by code_simp
  from backtrack_postcondition[OF h1 h2] h3
  have "stack_agrees (snd (backtrack example_backtrack))" by blast
  with h1 ok h3 e show ?thesis by (simp add: list_ex_iff)
qed

text \<open>
  Claim C3. The claim is that \<^verbatim>\<open>decision_level\<close> equals the number of decision entries
  in every state the stack operations and the driver reach. \<^verbatim>\<open>assignment_stack_pop\<close>
  lowers the level when it pops a decision, but \<^verbatim>\<open>backtrack\<close> unstacks without it and
  then pushes the flipped decision, which raises the level: on the unsatisfiable formula
  above, the second iteration of the driver backtracks and leaves level 2 with one
  decision entry on the stack.
\<close>

theorem backtrack_level_drift:
  "level_matches_decisions (assignments (snd (dpll_iteration quiet_environment 1 example_four))) \<and>
   has_conflict (snd (unit_propagation (snd (dpll_iteration quiet_environment 1 example_four)))) \<and>
   fst (backtrack (snd (unit_propagation (snd (dpll_iteration quiet_environment 1 example_four))))) \<and>
   decision_level (assignments
     (snd (dpll_iteration quiet_environment 2 (snd (dpll_iteration quiet_environment 1 example_four))))) = 2 \<and>
   length (filter is_decision (stack (assignments
     (snd (dpll_iteration quiet_environment 2 (snd (dpll_iteration quiet_environment 1 example_four))))))) = 1"
  by code_simp




text \<open>
  Claim C5. If no clause is conflicting before \<^verbatim>\<open>pure_literal_elimination\<close>, no clause is
  conflicting after it.
\<close>

theorem pure_literal_preserves_conflict_freedom:
  "\<not> cnf_has_conflict (formula s) \<Longrightarrow>
     \<not> cnf_has_conflict (formula (snd (pure_literal_elimination s)))"
proof -
  assume nc: "\<not> cnf_has_conflict (formula s)"
  obtain s' ch where f: "fold pure_literal_step [1 .. num_variables (formula s)] (s, False) = (s', ch)"
    by (cases "fold pure_literal_step [1 .. num_variables (formula s)] (s, False)")
  have "\<forall>v \<in> set [1 .. num_variables (formula s)]. 1 \<le> v \<and> v \<le> num_variables (formula s)" by simp
  from pure_literal_fold_no_conflict[OF nc this f] f show ?thesis
    by (simp add: pure_literal_elimination_def)
qed

theorem pure_literal_preserves_conflict_freedom_witness:
  "\<not> cnf_has_conflict (formula example_chain) \<and>
   fst (pure_literal_elimination example_chain) \<and>
   \<not> cnf_has_conflict (formula (snd (pure_literal_elimination example_chain)))"
proof -
  have h: "\<not> cnf_has_conflict (formula example_chain)" by code_simp
  have c: "fst (pure_literal_elimination example_chain)" by code_simp
  from pure_literal_preserves_conflict_freedom[OF h] h c show ?thesis by simp
qed

text \<open>
  Claim C6. The claim is that \<^verbatim>\<open>decision_most_frequent\<close> returns an unassigned variable
  of maximal frequency whenever one is unassigned. After unit propagation on the formula
  \<open>(x1)\<close> over two variables, \<open>x2\<close> is unassigned and \<^verbatim>\<open>decision_most_frequent\<close> returns 0,
  where \<^verbatim>\<open>decision_first_unassigned\<close> returns 2: the loop starts from
  \<^verbatim>\<open>max_frequency = 0\<close> and takes a variable on a strictly larger total only.
\<close>

theorem most_frequent_returns_zero:
  "num_variables (formula (snd (unit_propagation example_unused))) = 2 \<and>
   assignment (formula (snd (unit_propagation example_unused))) 2 = VAR_UNASSIGNED \<and>
   decision_most_frequent (snd (unit_propagation example_unused)) = 0 \<and>
   decision_first_unassigned (snd (unit_propagation example_unused)) = 2 \<and>
   fst (solver_solve quiet_environment example_unused) = SOLVER_SATISFIABLE"
  by code_simp

text \<open>
  Claim C7. \<^verbatim>\<open>unit_propagation\<close> terminates on every input (the loop above is a total
  function, its recursion justified by \<open>unassigned_count\<close>). A pass either sets
  \<^verbatim>\<open>propagated\<close>, and then the stack is strictly longer after it, or it is the last pass:
  the function returns the state that pass left. The number of passes that propagate is
  at most \<^verbatim>\<open>num_variables\<close>, and the stack grows by at least that number.
\<close>

theorem unit_propagation_terminates:
  "(case unit_propagation_pass (clauses (formula s)) s False of
      (ro, s1, propagated) \<Rightarrow>
        (propagated \<longrightarrow> length (stack (assignments s)) < length (stack (assignments s1))) \<and>
        (\<not> propagated \<longrightarrow> snd (unit_propagation_loop s k) = (s1, k))) \<and>
   (case unit_propagation_loop s 0 of
      (r, s', passes) \<Rightarrow>
        passes \<le> nat (num_variables (formula s)) \<and>
        length (stack (assignments s)) + passes \<le> length (stack (assignments s')))"
proof -
  obtain ro s1 p where pass: "unit_propagation_pass (clauses (formula s)) s False = (ro, s1, p)"
    by (cases "unit_propagation_pass (clauses (formula s)) s False")
  obtain r s' n where loop: "unit_propagation_loop s 0 = (r, s', n)"
    by (cases "unit_propagation_loop s 0")
  note m = unit_propagation_pass_measure[OF pass]
  note l = unit_propagation_loop_passes[OF loop]
  have a: "p \<longrightarrow> length (stack (assignments s)) < length (stack (assignments s1))"
    using m by simp
  have b: "\<not> p \<longrightarrow> snd (unit_propagation_loop s k) = (s1, k)"
    using pass by (auto simp: unit_propagation_loop.simps[of s] split: option.splits)
  have "n \<le> unassigned_count s" using l by linarith
  hence c: "n \<le> nat (num_variables (formula s))"
    using unassigned_count_le[of s] by linarith
  have d: "length (stack (assignments s)) + n \<le> length (stack (assignments s'))"
    using l by simp
  have first: "case unit_propagation_pass (clauses (formula s)) s False of
      (ro, s1, propagated) \<Rightarrow>
        (propagated \<longrightarrow> length (stack (assignments s)) < length (stack (assignments s1))) \<and>
        (\<not> propagated \<longrightarrow> snd (unit_propagation_loop s k) = (s1, k))"
    unfolding pass using a b by simp
  have second: "case unit_propagation_loop s 0 of
      (r, s', passes) \<Rightarrow>
        passes \<le> nat (num_variables (formula s)) \<and>
        length (stack (assignments s)) + passes \<le> length (stack (assignments s'))"
    unfolding loop using c d by simp
  from first second show ?thesis by (rule conjI)
qed

theorem unit_propagation_terminates_witness:
  "snd (snd (unit_propagation_pass (clauses (formula example_chain)) example_chain False)) \<and>
   length (stack (assignments example_chain)) <
     length (stack (assignments (fst (snd
       (unit_propagation_pass (clauses (formula example_chain)) example_chain False))))) \<and>
   snd (snd (unit_propagation_loop example_chain 0)) \<le> nat (num_variables (formula example_chain)) \<and>
   length (stack (assignments example_chain)) + snd (snd (unit_propagation_loop example_chain 0))
     \<le> length (stack (assignments (fst (snd (unit_propagation_loop example_chain 0)))))"
proof -
  have p: "snd (snd (unit_propagation_pass (clauses (formula example_chain)) example_chain False))"
    by code_simp
  from unit_propagation_terminates[of example_chain 0] p show ?thesis
    by (simp add: case_prod_beta)
qed

text \<open>
  Claim C8. Under every assignment the clause with no literals is conflicting, is not
  satisfied and is not unit; and a clause that is satisfied under an assignment is not
  unit under it (\<^verbatim>\<open>clause_is_unit\<close> returns false).
\<close>

theorem empty_clause_edge_cases:
  "clause_is_conflicting [] a \<and> \<not> clause_is_satisfied [] a \<and> clause_is_unit [] a = None \<and>
   (clause_is_satisfied c a \<longrightarrow> clause_is_unit c a = None)"
  by (simp add: clause_is_unit_def clause_is_unit_loop_satisfied)

theorem empty_clause_edge_cases_witness:
  "clause_is_satisfied [1, -2] ((\<lambda>_. VAR_UNASSIGNED)(2 := VAR_FALSE)) \<and>
   clause_is_unit [1, -2] ((\<lambda>_. VAR_UNASSIGNED)(2 := VAR_FALSE)) = None"
  using empty_clause_edge_cases[where c = "[1, -2]" and a = "(\<lambda>_. VAR_UNASSIGNED)(2 := VAR_FALSE)"]
  by (simp add: literal_satisfied_def literal_variable_def literal_is_positive_def)




text \<open>
  Claim C10. Whenever \<^verbatim>\<open>clause_is_unit\<close> returns a literal, the variable of that
  literal is unassigned. So the branch of \<^verbatim>\<open>unit_propagation\<close> for a unit literal whose
  variable is already assigned is never taken: no pass leaves through its
  \<^verbatim>\<open>return SOLVER_UNKNOWN\<close>, and \<^verbatim>\<open>unit_propagation\<close> leaves \<^verbatim>\<open>stats.conflicts\<close> and
  \<^verbatim>\<open>conflicts_since_restart\<close> as they were.
\<close>

theorem unit_literal_unassigned:
  "(clause_is_unit c a = Some l \<longrightarrow> a (literal_variable l) = VAR_UNASSIGNED) \<and>
   fst (unit_propagation_pass cs s p) \<noteq> Some SOLVER_UNKNOWN \<and>
   conflicts (stats (snd (unit_propagation s))) = conflicts (stats s) \<and>
   conflicts_since_restart (snd (unit_propagation s)) = conflicts_since_restart s"
proof -
  obtain ro s1 p1 where pass: "unit_propagation_pass cs s p = (ro, s1, p1)"
    by (cases "unit_propagation_pass cs s p")
  obtain r s' n where loop: "unit_propagation_loop s 0 = (r, s', n)"
    by (cases "unit_propagation_loop s 0")
  from unit_propagation_pass_counters[OF pass] unit_propagation_loop_counters[OF loop]
    clause_is_unit_Some(2)[of c a l] pass loop
  show ?thesis by (simp add: unit_propagation_def)
qed

theorem unit_literal_unassigned_witness:
  "clause_is_unit [1, -2] ((\<lambda>_. VAR_UNASSIGNED)(2 := VAR_TRUE)) = Some 1 \<and>
   ((\<lambda>_. VAR_UNASSIGNED)(2 := VAR_TRUE)) (literal_variable 1) = VAR_UNASSIGNED \<and>
   conflicts (stats (snd (unit_propagation example_chain))) = conflicts (stats example_chain) \<and>
   conflicts_since_restart (snd (unit_propagation example_chain)) =
     conflicts_since_restart example_chain"
proof -
  have u: "clause_is_unit [1, -2] ((\<lambda>_. VAR_UNASSIGNED)(2 := VAR_TRUE)) = Some 1"
    by code_simp
  from unit_literal_unassigned[where c = "[1, -2]" and a = "(\<lambda>_. VAR_UNASSIGNED)(2 := VAR_TRUE)"
      and l = 1 and s = example_chain and cs = "[]" and p = False] u
  show ?thesis by simp
qed

end
